theory Spec2Isabelle
  imports Complex_Main "HOL-Library.Word" "HOL-Library.Signed_Division"
begin

section \<open>Machine integers of the Go program\<close>

text \<open>
  Go's \<^verbatim>\<open>int\<close> (on the 64-bit targets) and \<^verbatim>\<open>time.Duration\<close> (an \<^verbatim>\<open>int64\<close> count of
  nanoseconds) are 64-bit two's-complement integers: \<open>+\<close> and \<open>-\<close> wrap around, the
  comparisons are the signed ones (\<open><s\<close>, \<open>\<le>s\<close>), and \<^verbatim>\<open>/\<close> and \<^verbatim>\<open>%\<close> truncate towards
  zero.
\<close>

type_synonym go_int = "64 word"
type_synonym Duration = "64 word"

definition go_quo :: "go_int \<Rightarrow> go_int \<Rightarrow> go_int" where
  "go_quo a b = word_of_int (sint a sdiv sint b)"

definition go_rem :: "go_int \<Rightarrow> go_int \<Rightarrow> go_int" where
  "go_rem a b = word_of_int (sint a smod sint b)"

section \<open>engine/timer.go: phases, configuration and session\<close>

datatype Phase = PhaseWork | PhaseShortBreak | PhaseLongBreak | PhaseDone

record Config =
  WorkDuration :: Duration
  ShortBreakDuration :: Duration
  LongBreakDuration :: Duration
  LongBreakEvery :: go_int
  TotalCycles :: go_int

record Session =
  config :: Config
  currentPhase :: Phase
  cyclesComplete :: go_int
  totalPhases :: go_int
  phasesComplete :: go_int

text \<open>\<^verbatim>\<open>calculateTotalPhases\<close> reads the configuration of the session only.\<close>

definition calculateTotalPhases :: "Session \<Rightarrow> go_int" where
  "calculateTotalPhases s =
     (if TotalCycles (config s) = 0 then 0
      else
        let cycles = TotalCycles (config s);
            phases = cycles
        in if 0 <s LongBreakEvery (config s) then
             let longBreaks = go_quo (cycles - 1) (LongBreakEvery (config s));
                 shortBreaks = cycles - 1 - longBreaks
             in phases + (longBreaks + shortBreaks)
           else phases + (cycles - 1))"

text \<open>
  \<^verbatim>\<open>NewSession\<close>: the Go struct literal sets \<^verbatim>\<open>config\<close> and \<^verbatim>\<open>currentPhase\<close>, the
  counters get their zero value, then \<^verbatim>\<open>totalPhases\<close> is computed from the session.
\<close>

definition NewSession :: "Config \<Rightarrow> Session" where
  "NewSession cfg =
     (let s = \<lparr>config = cfg, currentPhase = PhaseWork, cyclesComplete = 0,
                totalPhases = 0, phasesComplete = 0\<rparr>
      in s\<lparr>totalPhases := calculateTotalPhases s\<rparr>)"

definition CurrentPhase :: "Session \<Rightarrow> Phase" where
  "CurrentPhase s = currentPhase s"

definition CyclesComplete :: "Session \<Rightarrow> go_int" where
  "CyclesComplete s = cyclesComplete s"

definition SessionTotalCycles :: "Session \<Rightarrow> go_int" where
  "SessionTotalCycles s = TotalCycles (config s)"

definition TotalPhases :: "Session \<Rightarrow> go_int" where
  "TotalPhases s = totalPhases s"

definition PhasesComplete :: "Session \<Rightarrow> go_int" where
  "PhasesComplete s = phasesComplete s"

definition PhaseDuration :: "Session \<Rightarrow> Duration" where
  "PhaseDuration s =
     (case currentPhase s of
        PhaseWork \<Rightarrow> WorkDuration (config s)
      | PhaseShortBreak \<Rightarrow> ShortBreakDuration (config s)
      | PhaseLongBreak \<Rightarrow> LongBreakDuration (config s)
      | PhaseDone \<Rightarrow> 0)"

text \<open>
  \<^verbatim>\<open>NextPhase\<close> mutates the session through its pointer receiver and returns a phase:
  the model returns the phase together with the session after the call.
\<close>

definition NextPhase :: "Session \<Rightarrow> Phase \<times> Session" where
  "NextPhase s =
     (if currentPhase s = PhaseDone then (PhaseDone, s)
      else
        let s1 = s\<lparr>phasesComplete := phasesComplete s + 1\<rparr>
        in case currentPhase s1 of
             PhaseWork \<Rightarrow>
               let s2 = s1\<lparr>cyclesComplete := cyclesComplete s1 + 1\<rparr>
               in if 0 <s TotalCycles (config s2)
                     \<and> TotalCycles (config s2) \<le>s cyclesComplete s2
                  then let s3 = s2\<lparr>currentPhase := PhaseDone\<rparr> in (currentPhase s3, s3)
                  else
                    let s3 = (if 0 <s LongBreakEvery (config s2)
                                 \<and> go_rem (cyclesComplete s2) (LongBreakEvery (config s2)) = 0
                              then s2\<lparr>currentPhase := PhaseLongBreak\<rparr>
                              else s2\<lparr>currentPhase := PhaseShortBreak\<rparr>)
                    in (currentPhase s3, s3)
           | PhaseShortBreak \<Rightarrow> let s2 = s1\<lparr>currentPhase := PhaseWork\<rparr> in (currentPhase s2, s2)
           | PhaseLongBreak \<Rightarrow> let s2 = s1\<lparr>currentPhase := PhaseWork\<rparr> in (currentPhase s2, s2)
           | PhaseDone \<Rightarrow> (currentPhase s1, s1))"


text \<open>
  The operations of a session as values, to speak about arbitrary sequences of calls.
  Only \<^verbatim>\<open>NextPhase\<close> assigns to a field; the other methods have bodies that only read.
\<close>

datatype SessionOp =
    OpCurrentPhase | OpCyclesComplete | OpTotalCycles | OpTotalPhases
  | OpPhasesComplete | OpPhaseDuration | OpCalculateTotalPhases | OpNextPhase

datatype OpResult = ResPhase Phase | ResInt go_int | ResDuration Duration

definition applyOp :: "SessionOp \<Rightarrow> Session \<Rightarrow> OpResult \<times> Session" where
  "applyOp op s =
     (case op of
        OpCurrentPhase \<Rightarrow> (ResPhase (CurrentPhase s), s)
      | OpCyclesComplete \<Rightarrow> (ResInt (CyclesComplete s), s)
      | OpTotalCycles \<Rightarrow> (ResInt (SessionTotalCycles s), s)
      | OpTotalPhases \<Rightarrow> (ResInt (TotalPhases s), s)
      | OpPhasesComplete \<Rightarrow> (ResInt (PhasesComplete s), s)
      | OpPhaseDuration \<Rightarrow> (ResDuration (PhaseDuration s), s)
      | OpCalculateTotalPhases \<Rightarrow> (ResInt (calculateTotalPhases s), s)
      | OpNextPhase \<Rightarrow> (case NextPhase s of (p, s') \<Rightarrow> (ResPhase p, s')))"

fun applyOps :: "SessionOp list \<Rightarrow> Session \<Rightarrow> Session" where
  "applyOps [] s = s"
| "applyOps (op # ops) s = applyOps ops (snd (applyOp op s))"

text \<open>
  The total-phase count in the words of the specification, over the mathematical
  integers: \<open>C\<close> cycles, \<open>floor ((C - 1) / F)\<close> long breaks when the frequency \<open>F\<close> is
  positive and none otherwise, the remaining \<open>C - 1\<close> breaks short.
\<close>

definition specTotalPhases :: "int \<Rightarrow> int \<Rightarrow> int" where
  "specTotalPhases C F =
     (if C = 0 then 0
      else
        let longBreaks = (if 0 < F then (C - 1) div F else 0);
            shortBreaks = (C - 1) - longBreaks
        in C + longBreaks + shortBreaks)"

section \<open>engine/timer.go: the timer and its environment\<close>

text \<open>
  An instant (\<^verbatim>\<open>time.Time\<close>) is a count of nanoseconds on an unbounded axis.
  \<^verbatim>\<open>Time.Add\<close> moves an instant by a duration; \<^verbatim>\<open>Time.Sub\<close> saturates at the least and
  greatest \<^verbatim>\<open>Duration\<close>, as the standard library documents.
\<close>

type_synonym Time = int

definition time_Add :: "Time \<Rightarrow> Duration \<Rightarrow> Time" where
  "time_Add t d = t + sint d"

definition time_Sub :: "Time \<Rightarrow> Time \<Rightarrow> Duration" where
  "time_Sub t u =
     (let d = t - u
      in if d < - (2 ^ 63) then word_of_int (- (2 ^ 63))
         else if 2 ^ 63 - 1 < d then word_of_int (2 ^ 63 - 1)
         else word_of_int d)"

record TimerEvent =
  evPhase :: Phase
  evElapsed :: Duration
  evRemaining :: Duration
  evTotal :: Duration
  evFraction :: real
  evPhaseComplete :: bool
  evCycleNum :: go_int
  evTotalCycles :: go_int
  evPhaseNum :: go_int
  evTotalPhases :: go_int

text \<open>
  The clock of a timer is an interface value; what it returns is part of the
  environment below, so the timer keeps the tick interval and the session.
\<close>

record Timer =
  tickInterval :: Duration
  session :: Session

definition DefaultTickInterval :: Duration where
  "DefaultTickInterval = 200 * 1000000"

definition NewTimerWithClock :: "Config \<Rightarrow> Duration \<Rightarrow> Timer" where
  "NewTimerWithClock cfg interval = \<lparr>tickInterval = interval, session = NewSession cfg\<rparr>"

definition NewTimer :: "Config \<Rightarrow> Timer" where
  "NewTimer cfg = NewTimerWithClock cfg DefaultTickInterval"

datatype error = Canceled | DeadlineExceeded

text \<open>
  What a \<^verbatim>\<open>select\<close> between a channel operation and \<^verbatim>\<open>ctx.Done()\<close> finds when it resolves:
  only the channel operation can proceed, only \<^verbatim>\<open>ctx.Done()\<close> is ready (the context is
  cancelled), or both are, and then Go picks one of them pseudo-randomly
  (\<open>Both True\<close>: the \<^verbatim>\<open>ctx.Done()\<close> case).
\<close>

datatype ready = Peer | Cancel | Both bool

fun signaled :: "ready \<Rightarrow> bool" where
  "signaled Peer = False"
| "signaled Cancel = True"
| "signaled (Both b) = True"

fun takesDone :: "ready \<Rightarrow> bool" where
  "takesDone Peer = False"
| "takesDone Cancel = True"
| "takesDone (Both b) = b"

text \<open>
  The environment of a run: the reading the clock returns at its \<open>k\<close>-th call of
  \<^verbatim>\<open>Now\<close>, what the \<open>k\<close>-th \<^verbatim>\<open>select\<close> finds, the error \<^verbatim>\<open>ctx.Err()\<close> reports once the
  context is done, and the rounding of a real number to a \<^verbatim>\<open>float64\<close>. Every
  \<^verbatim>\<open>select\<close> resolves; a run that waits forever for its consumer is not described.
\<close>

record world =
  nowAt :: "nat \<Rightarrow> Time"
  selectAt :: "nat \<Rightarrow> ready"
  ctxErr :: error
  float64 :: "real \<Rightarrow> real"

text \<open>
  The channel and ticker operations a run performs, in order, and the state threaded
  through a run: how many readings of the clock and how many \<^verbatim>\<open>select\<close>s it has
  consumed, and the operations performed so far.
\<close>

datatype action =
    Send TimerEvent | RecvTick | RecvDone | TickerNew Duration | TickerStop | Close

record io =
  nowCalls :: nat
  selCalls :: nat
  trace :: "action list"

definition io0 :: io where
  "io0 = \<lparr>nowCalls = 0, selCalls = 0, trace = []\<rparr>"

definition clockNow :: "world \<Rightarrow> io \<Rightarrow> Time \<times> io" where
  "clockNow w i = (nowAt w (nowCalls i), i\<lparr>nowCalls := Suc (nowCalls i)\<rparr>)"

definition selectDone :: "world \<Rightarrow> io \<Rightarrow> bool \<times> io" where
  "selectDone w i = (takesDone (selectAt w (selCalls i)), i\<lparr>selCalls := Suc (selCalls i)\<rparr>)"

definition emit :: "action \<Rightarrow> io \<Rightarrow> io" where
  "emit a i = i\<lparr>trace := trace i @ [a]\<rparr>"

text \<open>The event built in one iteration of the loop of \<^verbatim>\<open>runPhase\<close>, clamping included.\<close>

definition mkEvent :: "(real \<Rightarrow> real) \<Rightarrow> Session \<Rightarrow> Duration \<Rightarrow> Duration \<Rightarrow> TimerEvent" where
  "mkEvent f64 s duration elapsed =
     (let remaining = duration - elapsed;
          remaining = (if remaining <s 0 then 0 else remaining);
          event = \<lparr>evPhase = CurrentPhase s,
                   evElapsed = elapsed,
                   evRemaining = remaining,
                   evTotal = duration,
                   evFraction = f64 (f64 (real_of_int (sint elapsed)) / f64 (real_of_int (sint duration))),
                   evPhaseComplete = (duration \<le>s elapsed),
                   evCycleNum = CyclesComplete s + 1,
                   evTotalCycles = SessionTotalCycles s,
                   evPhaseNum = PhasesComplete s + 1,
                   evTotalPhases = TotalPhases s\<rparr>
      in if 1 < evFraction event then event\<lparr>evFraction := 1\<rparr> else event)"

text \<open>
  The \<^verbatim>\<open>for\<close> loop of \<^verbatim>\<open>runPhase\<close>, with fuel: \<open>None\<close> when the fuel runs out before
  the loop returns.
\<close>

fun tickLoop :: "nat \<Rightarrow> world \<Rightarrow> Session \<Rightarrow> Duration \<Rightarrow> Time \<Rightarrow> io \<Rightarrow> (error option \<times> io) option" where
  "tickLoop 0 w s duration start i = None"
| "tickLoop (Suc n) w s duration start i =
     (case clockNow w i of (now, i1) \<Rightarrow>
        let elapsed = time_Sub now start;
            event = mkEvent (float64 w) s duration elapsed
        in case selectDone w i1 of (done1, i2) \<Rightarrow>
             if done1 then Some (Some (ctxErr w), emit RecvDone i2)
             else
               let i3 = emit (Send event) i2
               in if evPhaseComplete event then Some (None, i3)
                  else case selectDone w i3 of (done2, i4) \<Rightarrow>
                         if done2 then Some (Some (ctxErr w), emit RecvDone i4)
                         else tickLoop n w s duration start (emit RecvTick i4))"

definition runPhase :: "nat \<Rightarrow> world \<Rightarrow> Timer \<Rightarrow> io \<Rightarrow> (error option \<times> io) option" where
  "runPhase n w t i =
     (let duration = PhaseDuration (session t)
      in if duration = 0 then Some (None, i)
         else case clockNow w i of (start, i1) \<Rightarrow>
                let i2 = emit (TickerNew (tickInterval t)) i1
                in case tickLoop n w (session t) duration start i2 of
                     None \<Rightarrow> None
                   | Some (err, i3) \<Rightarrow> Some (err, emit TickerStop i3))"

fun runLoop :: "nat \<Rightarrow> world \<Rightarrow> Timer \<Rightarrow> io \<Rightarrow> (error option \<times> Timer \<times> io) option" where
  "runLoop 0 w t i = None"
| "runLoop (Suc n) w t i =
     (if CurrentPhase (session t) \<noteq> PhaseDone then
        case runPhase n w t i of
          None \<Rightarrow> None
        | Some (Some err, i') \<Rightarrow> Some (Some err, t, i')
        | Some (None, i') \<Rightarrow> runLoop n w (t\<lparr>session := snd (NextPhase (session t))\<rparr>) i'
      else Some (None, t, i))"

text \<open>\<^verbatim>\<open>Run\<close>: the loop, then the deferred \<^verbatim>\<open>close(events)\<close> on every return.\<close>

definition Run :: "nat \<Rightarrow> world \<Rightarrow> Timer \<Rightarrow> io \<Rightarrow> (error option \<times> Timer \<times> io) option" where
  "Run n w t i =
     (case runLoop n w t i of
        None \<Rightarrow> None
      | Some (err, t', i') \<Rightarrow> Some (err, t', emit Close i'))"

definition events :: "io \<Rightarrow> TimerEvent list" where
  "events i = concat (map (\<lambda>a. case a of Send e \<Rightarrow> [e] | _ \<Rightarrow> []) (trace i))"

section \<open>engine/clock.go: the mock clock\<close>

text \<open>
  A mock ticker owns a channel of capacity one, modelled as the queue of the instants
  not yet received. The clock keeps its tickers in registration order; a ticker is
  known to its user by its position in that list (\<^verbatim>\<open>NewTicker\<close> always allocates a
  fresh ticker, so no two positions alias).
\<close>

record MockTicker =
  interval :: Duration
  ch :: "Time list"
  nextTick :: Time
  stopped :: bool

record MockClock =
  current :: Time
  tickers :: "MockTicker list"


definition MockClock_Now :: "MockClock \<Rightarrow> Time" where
  "MockClock_Now m = current m"


definition MockTicker_Stop :: "MockTicker \<Rightarrow> MockTicker" where
  "MockTicker_Stop t = t\<lparr>stopped := True\<rparr>"

text \<open>
  \<^verbatim>\<open>select { case earliest.ch <- m.current: default: }\<close> on a channel made with
  \<^verbatim>\<open>make(chan time.Time, 1)\<close>: the send proceeds when the buffer has room, and the
  \<^verbatim>\<open>default\<close> case drops the value otherwise.
\<close>

definition trySend :: "Time list \<Rightarrow> Time \<Rightarrow> Time list" where
  "trySend q v = (if length q < 1 then q @ [v] else q)"

text \<open>
  The inner \<^verbatim>\<open>range\<close> loop of \<^verbatim>\<open>Advance\<close>: \<open>i\<close> is the position of the head of the list,
  \<open>earliest\<close> the candidate so far (\<open>None\<close> for \<^verbatim>\<open>nil\<close>).
\<close>

fun scanEarliest :: "MockTicker list \<Rightarrow> nat \<Rightarrow> (nat \<times> MockTicker) option \<Rightarrow> (nat \<times> MockTicker) option" where
  "scanEarliest [] i earliest = earliest"
| "scanEarliest (t # ts) i earliest =
     (if stopped t then scanEarliest ts (Suc i) earliest
      else case earliest of
             None \<Rightarrow> scanEarliest ts (Suc i) (Some (i, t))
           | Some (j, e) \<Rightarrow>
               if nextTick t < nextTick e then scanEarliest ts (Suc i) (Some (i, t))
               else scanEarliest ts (Suc i) earliest)"

text \<open>
  The outer loop of \<^verbatim>\<open>Advance\<close>. It may run forever, so it is a partial function:
  \<open>None\<close> is the loop that does not return. The second component lists the deliveries
  attempted so far, each with the position of the ticker and the instant sent.
\<close>

partial_function (option) advanceLoop ::
  "Time \<Rightarrow> MockClock \<Rightarrow> (nat \<times> Time) list \<Rightarrow> (MockClock \<times> (nat \<times> Time) list) option" where
  "advanceLoop target m fired =
     (if current m < target then
        case scanEarliest (tickers m) 0 None of
          None \<Rightarrow> Some (m\<lparr>current := target\<rparr>, fired)
        | Some (i, earliest) \<Rightarrow>
            if target < nextTick earliest then Some (m\<lparr>current := target\<rparr>, fired)
            else
              let m1 = m\<lparr>current := nextTick earliest\<rparr>;
                  e1 = earliest\<lparr>ch := trySend (ch earliest) (current m1)\<rparr>;
                  e2 = e1\<lparr>nextTick := time_Add (nextTick e1) (interval e1)\<rparr>
              in advanceLoop target (m1\<lparr>tickers := (tickers m1)[i := e2]\<rparr>) (fired @ [(i, current m1)])
      else Some (m, fired))"

declare advanceLoop.simps [code]

definition Advance :: "MockClock \<Rightarrow> Duration \<Rightarrow> (MockClock \<times> (nat \<times> Time) list) option" where
  "Advance m d = advanceLoop (time_Add (current m) d) m []"

definition MockClock_Sleep :: "MockClock \<Rightarrow> Duration \<Rightarrow> (MockClock \<times> (nat \<times> Time) list) option" where
  "MockClock_Sleep m d = Advance m d"

section \<open>Notions used in the statements\<close>

text \<open>
  The session after \<open>j\<close> calls of \<^verbatim>\<open>NextPhase\<close>, and the timer whose session has been
  advanced once, as the loop of \<^verbatim>\<open>Run\<close> does after each phase.
\<close>

primrec nthSession :: "nat \<Rightarrow> Session \<Rightarrow> Session" where
  "nthSession 0 s = s"
| "nthSession (Suc j) s = nthSession j (snd (NextPhase s))"

definition advanceSession :: "Timer \<Rightarrow> Timer" where
  "advanceSession t = t\<lparr>session := snd (NextPhase (session t))\<rparr>"

text \<open>
  One iteration of the loop of \<^verbatim>\<open>runPhase\<close> reads the clock once, resolves \<open>k\<close>
  \<^verbatim>\<open>select\<close>s and performs the actions \<open>as\<close>.
\<close>

definition step_io :: "io \<Rightarrow> nat \<Rightarrow> action list \<Rightarrow> io" where
  "step_io i k as = i\<lparr>nowCalls := Suc (nowCalls i), selCalls := selCalls i + k, trace := trace i @ as\<rparr>"

text \<open>The actions performed between two states of the environment.\<close>

definition added :: "io \<Rightarrow> io \<Rightarrow> action list" where
  "added i i' = drop (length (trace i)) (trace i')"

text \<open>None of the \<^verbatim>\<open>select\<close>s numbered \<open>a\<close> to \<open>b - 1\<close> takes the \<^verbatim>\<open>ctx.Done()\<close> case.\<close>

definition noDone :: "world \<Rightarrow> nat \<Rightarrow> nat \<Rightarrow> bool" where
  "noDone w a b \<longleftrightarrow> list_all (\<lambda>k. \<not> takesDone (selectAt w k)) [a..<b]"

text \<open>The event built from the \<open>k\<close>-th reading of the clock in a phase started at \<open>start\<close>.\<close>

definition evAt :: "world \<Rightarrow> Session \<Rightarrow> Duration \<Rightarrow> Time \<Rightarrow> nat \<Rightarrow> TimerEvent" where
  "evAt w s d start k = mkEvent (float64 w) s d (time_Sub (nowAt w k) start)"

text \<open>
  What is assumed of the conversion to \<^verbatim>\<open>float64\<close> and of the division of two
  \<^verbatim>\<open>float64\<close> values: rounding is monotone and leaves \<open>0\<close> and \<open>1\<close> as they are, which
  round-to-nearest does.
\<close>

definition rounding :: "(real \<Rightarrow> real) \<Rightarrow> bool" where
  "rounding f \<longleftrightarrow> mono f \<and> f 0 = 0 \<and> f 1 = 1"

text \<open>
  The actions of one phase that ran to its end: the ticker is created, events that are
  not complete alternate with ticks, and the last event, sent right before the ticker
  is stopped, is complete.
\<close>

fun phaseBody :: "action list \<Rightarrow> bool" where
  "phaseBody [] = False"
| "phaseBody (a # rest) =
     (case a of
        Send e \<Rightarrow>
          if rest = [TickerStop] then evPhaseComplete e
          else \<not> evPhaseComplete e \<and> phaseBody rest
      | RecvTick \<Rightarrow> phaseBody rest
      | _ \<Rightarrow> False)"

fun phaseSegment :: "action list \<Rightarrow> bool" where
  "phaseSegment (TickerNew d # rest) = phaseBody rest"
| "phaseSegment seg = False"

text \<open>The outcome, the actions and the events of a run from the initial environment.\<close>

definition runError :: "nat \<Rightarrow> world \<Rightarrow> Timer \<Rightarrow> error option option" where
  "runError n w t = map_option fst (Run n w t io0)"

definition runTrace :: "nat \<Rightarrow> world \<Rightarrow> Timer \<Rightarrow> action list option" where
  "runTrace n w t = map_option (trace \<circ> snd \<circ> snd) (Run n w t io0)"

definition runEvents :: "nat \<Rightarrow> world \<Rightarrow> Timer \<Rightarrow> TimerEvent list option" where
  "runEvents n w t = map_option (events \<circ> snd \<circ> snd) (Run n w t io0)"

text \<open>
  A configuration under which the loop of \<^verbatim>\<open>Run\<close> cannot pass from phase to phase forever
  without reaching a \<^verbatim>\<open>select\<close>: the work duration is not zero, or neither break
  duration is.
\<close>

definition progressing :: "Config \<Rightarrow> bool" where
  "progressing cfg \<longleftrightarrow>
     WorkDuration cfg \<noteq> 0 \<or> (ShortBreakDuration cfg \<noteq> 0 \<and> LongBreakDuration cfg \<noteq> 0)"

text \<open>
  The iterations of the loop of \<^verbatim>\<open>Run\<close> that ran to their end: zero or more phases, each
  entered with the session not at \<^verbatim>\<open>Done\<close>, each returned \<^verbatim>\<open>nil\<close> by \<^verbatim>\<open>runPhase\<close> and
  followed by \<^verbatim>\<open>NextPhase\<close>. They lead from a timer and a state of the environment to
  the timer and the state the loop is at after them, whether or not the run returns.
\<close>

inductive completedPhases :: "world \<Rightarrow> Timer \<Rightarrow> io \<Rightarrow> Timer \<Rightarrow> io \<Rightarrow> bool" for w where
  here: "completedPhases w t i t i"
| phase: "CurrentPhase (session t) \<noteq> PhaseDone \<Longrightarrow> runPhase n w t i = Some (None, i1) \<Longrightarrow>
          completedPhases w (advanceSession t) i1 t' i' \<Longrightarrow> completedPhases w t i t' i'"

text \<open>
  Notions for the mock clock. One pass of the inner loop of \<^verbatim>\<open>Advance\<close> keeps or replaces
  the candidate (\<open>pick\<close>); one pass of the outer loop that fires a ticker delivers its
  next-fire instant without blocking and reschedules it (\<open>fireTicker\<close>), and moves the
  clock to that instant (\<open>stepClock\<close>).
\<close>

definition pick :: "nat \<Rightarrow> MockTicker \<Rightarrow> (nat \<times> MockTicker) option \<Rightarrow> (nat \<times> MockTicker) option" where
  "pick i t acc =
     (if stopped t then acc
      else case acc of
             None \<Rightarrow> Some (i, t)
           | Some (j, e) \<Rightarrow> if nextTick t < nextTick e then Some (i, t) else acc)"

definition fireTicker :: "MockTicker \<Rightarrow> MockTicker" where
  "fireTicker e = e\<lparr>ch := trySend (ch e) (nextTick e), nextTick := time_Add (nextTick e) (interval e)\<rparr>"

definition stepClock :: "MockClock \<Rightarrow> nat \<Rightarrow> MockTicker \<Rightarrow> MockClock" where
  "stepClock m i e = m\<lparr>current := nextTick e, tickers := (tickers m)[i := fireTicker e]\<rparr>"

text \<open>Every registered ticker that is not stopped has a strictly positive interval.\<close>

definition posIntervals :: "MockClock \<Rightarrow> bool" where
  "posIntervals m \<longleftrightarrow> (\<forall>t \<in> set (tickers m). \<not> stopped t \<longrightarrow> 0 <s interval t)"

text \<open>
  A bound on the firings a ticker can still make at or before the target, and its sum
  over the tickers of a clock: the measure that decreases with each firing.
\<close>

definition due :: "Time \<Rightarrow> MockTicker \<Rightarrow> nat" where
  "due target t = (if stopped t \<or> target < nextTick t then 0 else nat (target - nextTick t) + 1)"

definition pendingFirings :: "Time \<Rightarrow> MockClock \<Rightarrow> nat" where
  "pendingFirings target m = sum_list (map (due target) (tickers m))"

text \<open>
  The instants delivered to ticker \<open>j\<close> in a list of firings; the first \<open>n\<close> instants of
  the schedule of a ticker; and a ticker after the firings \<open>fs\<close>: it is rescheduled by
  its interval once per firing, and its channel keeps a pending instant if it had one
  and holds the first delivered instant otherwise.
\<close>

definition firings :: "nat \<Rightarrow> (nat \<times> Time) list \<Rightarrow> Time list" where
  "firings j new = map snd (filter (\<lambda>p. fst p = j) new)"

definition schedule :: "MockTicker \<Rightarrow> nat \<Rightarrow> Time list" where
  "schedule t n = map (\<lambda>k. nextTick t + int k * sint (interval t)) [0..<n]"

definition afterFirings :: "MockTicker \<Rightarrow> Time list \<Rightarrow> MockTicker" where
  "afterFirings t fs =
     t\<lparr>ch := (if ch t = [] then take 1 fs else ch t),
       nextTick := nextTick t + int (length fs) * sint (interval t)\<rparr>"


section \<open>Example configurations\<close>

definition cfg42 :: Config where
  "cfg42 = \<lparr>WorkDuration = 1, ShortBreakDuration = 1, LongBreakDuration = 1,
             LongBreakEvery = 2, TotalCycles = 4\<rparr>"

definition sess :: "Phase \<Rightarrow> go_int \<Rightarrow> go_int \<Rightarrow> Session" where
  "sess p c n = (NewSession cfg42)\<lparr>currentPhase := p, cyclesComplete := c, phasesComplete := n\<rparr>"

text \<open>
  Environments: the clock advances by one nanosecond at each reading; the context is
  never cancelled (\<open>world_ok\<close>), cancelled from the start with no other case ready
  (\<open>world_cancelled\<close>), or cancelled from the start while the other case is ready too and
  is the one Go picks (\<open>world_race\<close>).
\<close>

definition world_ok :: world where
  "world_ok = \<lparr>nowAt = (\<lambda>k. int k), selectAt = (\<lambda>k. Peer), ctxErr = Canceled, float64 = (\<lambda>x. x)\<rparr>"

definition world_cancelled :: world where
  "world_cancelled = \<lparr>nowAt = (\<lambda>k. int k), selectAt = (\<lambda>k. Cancel), ctxErr = Canceled, float64 = (\<lambda>x. x)\<rparr>"

definition world_race :: world where
  "world_race = \<lparr>nowAt = (\<lambda>k. int k), selectAt = (\<lambda>k. Both False), ctxErr = Canceled, float64 = (\<lambda>x. x)\<rparr>"

definition cfg_zero :: Config where
  "cfg_zero = \<lparr>WorkDuration = 0, ShortBreakDuration = 0, LongBreakDuration = 0,
               LongBreakEvery = 0, TotalCycles = 1\<rparr>"

definition cfg_one :: Config where
  "cfg_one = \<lparr>WorkDuration = 1, ShortBreakDuration = 0, LongBreakDuration = 0,
               LongBreakEvery = 0, TotalCycles = 1\<rparr>"

definition cfg_two :: Config where
  "cfg_two = \<lparr>WorkDuration = 1, ShortBreakDuration = 1, LongBreakDuration = 1,
               LongBreakEvery = 0, TotalCycles = 2\<rparr>"

definition cfg_neg :: Config where
  "cfg_neg = \<lparr>WorkDuration = - 1, ShortBreakDuration = 0, LongBreakDuration = 0,
               LongBreakEvery = 0, TotalCycles = 1\<rparr>"

definition cfg_short0 :: Config where
  "cfg_short0 = \<lparr>WorkDuration = 1, ShortBreakDuration = 0, LongBreakDuration = 1,
               LongBreakEvery = 0, TotalCycles = 3\<rparr>"

definition ev_one :: TimerEvent where
  "ev_one = \<lparr>evPhase = PhaseWork, evElapsed = 1, evRemaining = 0, evTotal = 1,
              evFraction = 1, evPhaseComplete = True, evCycleNum = 1,
              evTotalCycles = 1, evPhaseNum = 1, evTotalPhases = 1\<rparr>"


definition timer_done :: Timer where
  "timer_done = \<lparr>tickInterval = 1,
      session = \<lparr>config = cfg_one, currentPhase = PhaseDone, cyclesComplete = 1,
                  totalPhases = 1, phasesComplete = 1\<rparr>\<rparr>"

definition timer_short0 :: Timer where
  "timer_short0 = \<lparr>tickInterval = 1,
      session = \<lparr>config = cfg_short0, currentPhase = PhaseShortBreak, cyclesComplete = 1,
                  totalPhases = 5, phasesComplete = 1\<rparr>\<rparr>"

text \<open>
  Clocks: one ticker of interval 1 due at instant 1 (\<open>clock1\<close>), two such tickers
  (\<open>clock_tie\<close>), and the clock with one ticker of interval 0 as it is after that ticker
  has fired once (\<open>clock_zero\<close>).
\<close>

definition tick1 :: MockTicker where
  "tick1 = \<lparr>interval = 1, ch = [], nextTick = 1, stopped = False\<rparr>"

definition tick3 :: MockTicker where
  "tick3 = \<lparr>interval = 1, ch = [1], nextTick = 4, stopped = False\<rparr>"



definition clock1 :: MockClock where
  "clock1 = \<lparr>current = 0, tickers = [tick1]\<rparr>"



text \<open>
  A cycle count whose doubling leaves the range of Go's \<^verbatim>\<open>int\<close>; and a session without a
  bound on its cycles, run in an environment whose context is cancelled after the
  first phase: the event of the completed work phase, the state of the environment
  after that phase, after the cancelled break, and after the run.
\<close>

definition cfg_big :: Config where
  "cfg_big = \<lparr>WorkDuration = 1, ShortBreakDuration = 1, LongBreakDuration = 1,
              LongBreakEvery = 7, TotalCycles = 4611686018427387905\<rparr>"

definition world_late :: world where
  "world_late = \<lparr>nowAt = (\<lambda>k. int k), selectAt = (\<lambda>k. if k = 0 then Peer else Cancel),
                  ctxErr = Canceled, float64 = (\<lambda>x. x)\<rparr>"

definition cfg_forever :: Config where
  "cfg_forever = \<lparr>WorkDuration = 1, ShortBreakDuration = 1, LongBreakDuration = 1,
                  LongBreakEvery = 0, TotalCycles = 0\<rparr>"

definition ev_forever :: TimerEvent where
  "ev_forever = \<lparr>evPhase = PhaseWork, evElapsed = 1, evRemaining = 0, evTotal = 1,
                  evFraction = 1, evPhaseComplete = True, evCycleNum = 1,
                  evTotalCycles = 0, evPhaseNum = 1, evTotalPhases = 0\<rparr>"

definition io_forever :: io where
  "io_forever = \<lparr>nowCalls = 2, selCalls = 1, trace = [TickerNew 1, Send ev_forever, TickerStop]\<rparr>"

definition io_cancelled :: io where
  "io_cancelled = \<lparr>nowCalls = 4, selCalls = 2,
      trace = [TickerNew 1, Send ev_forever, TickerStop, TickerNew 1, RecvDone, TickerStop]\<rparr>"

definition io_late :: io where
  "io_late = \<lparr>nowCalls = 4, selCalls = 2,
      trace = [TickerNew 1, Send ev_forever, TickerStop, TickerNew 1, RecvDone, TickerStop, Close]\<rparr>"

section \<open>Properties of the session\<close>

lemma sint_eq_0_iff: "sint (w :: go_int) = 0 \<longleftrightarrow> w = 0"
  by (metis signed_eq_0_iff)

lemma sint_in_range:
  "- (2 ^ 63) \<le> k \<Longrightarrow> k < 2 ^ 63 \<Longrightarrow> sint (word_of_int k :: go_int) = k"
  by (simp add: sint_sbintrunc' signed_take_bit_int_eq_self_iff)

lemma smod_eq_0_iff_dvd:
  fixes a F :: int
  assumes "0 < F"
  shows "a smod F = 0 \<longleftrightarrow> F dvd a"
proof -
  have "a smod F = 0 \<longleftrightarrow> \<bar>a\<bar> mod F = 0"
    using assms by (auto simp add: signed_modulo_int_def sgn_if)
  also have "\<dots> \<longleftrightarrow> F dvd \<bar>a\<bar>" by (simp add: mod_eq_0_iff_dvd)
  finally show ?thesis by simp
qed

lemma smod_abs_less:
  fixes a F :: int
  assumes "0 < F"
  shows "\<bar>a smod F\<bar> < F"
  using assms by (simp add: signed_modulo_int_def abs_mult sgn_if)

lemma go_rem_eq_0_iff:
  assumes F: "0 <s F"
  shows "go_rem a F = 0 \<longleftrightarrow> sint F dvd sint a"
proof -
  have F': "0 < sint F" using F by (simp add: word_sless_alt)
  have b: "\<bar>sint a smod sint F\<bar> < sint F" by (rule smod_abs_less [OF F'])
  have "sint (go_rem a F) = sint a smod sint F"
    unfolding go_rem_def using b sint_lt[of F] by (intro sint_in_range) auto
  then have "go_rem a F = 0 \<longleftrightarrow> sint a smod sint F = 0"
    by (metis sint_eq_0_iff)
  then show ?thesis by (simp add: smod_eq_0_iff_dvd [OF F'])
qed

lemma specTotalPhases_closed: "specTotalPhases C F = (if C = 0 then 0 else 2 * C - 1)"
  by (simp add: specTotalPhases_def Let_def)

lemma calculateTotalPhases_closed:
  "calculateTotalPhases s =
     (if TotalCycles (config s) = 0 then 0 else 2 * TotalCycles (config s) - 1)"
  by (simp add: calculateTotalPhases_def Let_def)

lemma totalPhases_word:
  "totalPhases (NewSession cfg) =
     word_of_int (specTotalPhases (sint (TotalCycles cfg)) (sint (LongBreakEvery cfg)))"
  by (simp add: NewSession_def calculateTotalPhases_closed specTotalPhases_closed sint_eq_0_iff)

lemma totalPhases_exact:
  assumes "- (2 ^ 62) < sint (TotalCycles cfg)" and "sint (TotalCycles cfg) \<le> 2 ^ 62"
  shows "sint (totalPhases (NewSession cfg)) =
     specTotalPhases (sint (TotalCycles cfg)) (sint (LongBreakEvery cfg))"
  unfolding totalPhases_word
  using assms by (intro sint_in_range) (simp_all add: specTotalPhases_closed)

text \<open>
  Claim C1, as the code has it. The total-phase count stored by \<^verbatim>\<open>NewSession\<close> is the
  count of the specification, \<open>specTotalPhases C F\<close> (\<open>0\<close> for \<open>C = 0\<close>, and otherwise
  \<open>C + longBreaks + shortBreaks\<close> with \<open>longBreaks = floor ((C - 1) / F)\<close> for \<open>F > 0\<close>,
  none otherwise, and \<open>shortBreaks = (C - 1) - longBreaks\<close>), reduced to Go's 64-bit
  \<^verbatim>\<open>int\<close>: the two agree modulo \<open>2 ^ 64\<close> for every configuration, and they are equal
  as integers whenever \<open>- 2 ^ 62 < C \<le> 2 ^ 62\<close>, where the sum \<open>2 C - 1\<close> is
  representable.
\<close>

theorem totalPhases_NewSession_spec:
  "TotalPhases (NewSession cfg) =
     word_of_int (specTotalPhases (sint (TotalCycles cfg)) (sint (LongBreakEvery cfg)))
   \<and> (- (2 ^ 62) < sint (TotalCycles cfg) \<and> sint (TotalCycles cfg) \<le> 2 ^ 62 \<longrightarrow>
        sint (TotalPhases (NewSession cfg)) =
          specTotalPhases (sint (TotalCycles cfg)) (sint (LongBreakEvery cfg)))"
  using totalPhases_word [of cfg] totalPhases_exact [of cfg]
  by (simp add: TotalPhases_def)

text \<open>The scenario of the specification: four cycles, a long break every second one.\<close>

theorem totalPhases_NewSession_spec_witness:
  "- (2 ^ 62) < sint (TotalCycles cfg42) \<and> sint (TotalCycles cfg42) \<le> 2 ^ 62
   \<and> TotalPhases (NewSession cfg42) = 7 \<and> specTotalPhases 4 2 = 7
   \<and> sint (TotalPhases (NewSession cfg42)) = 7"
  using totalPhases_NewSession_spec [of cfg42]
  by (simp add: cfg42_def specTotalPhases_def)

text \<open>
  Outside that range the two differ: for \<open>C = 2 ^ 62 + 1\<close> and \<open>F = 7\<close> the count of the
  specification is \<open>2 ^ 63 + 1\<close>, and the sum computed by \<^verbatim>\<open>calculateTotalPhases\<close> wraps
  around to a negative number.
\<close>

theorem totalPhases_overflow_counterexample:
  "sint (TotalCycles cfg_big) = 2 ^ 62 + 1
   \<and> sint (LongBreakEvery cfg_big) = 7
   \<and> specTotalPhases (sint (TotalCycles cfg_big)) (sint (LongBreakEvery cfg_big)) = 9223372036854775809
   \<and> sint (TotalPhases (NewSession cfg_big)) = - 9223372036854775807
   \<and> sint (TotalPhases (NewSession cfg_big))
       \<noteq> specTotalPhases (sint (TotalCycles cfg_big)) (sint (LongBreakEvery cfg_big))"
  by code_simp

lemma NextPhase_Done: "currentPhase s = PhaseDone \<Longrightarrow> NextPhase s = (PhaseDone, s)"
  by (simp add: NextPhase_def)

lemma NextPhase_Work:
  "currentPhase s = PhaseWork \<Longrightarrow>
   NextPhase s =
     (let c = cyclesComplete s + 1;
          p = (if 0 <s TotalCycles (config s) \<and> TotalCycles (config s) \<le>s c then PhaseDone
               else if 0 <s LongBreakEvery (config s) \<and> sint (LongBreakEvery (config s)) dvd sint c
               then PhaseLongBreak else PhaseShortBreak)
      in (p, s\<lparr>currentPhase := p, cyclesComplete := c, phasesComplete := phasesComplete s + 1\<rparr>))"
  by (auto simp add: NextPhase_def Let_def go_rem_eq_0_iff)

lemma NextPhase_Break:
  "currentPhase s = PhaseShortBreak \<or> currentPhase s = PhaseLongBreak \<Longrightarrow>
   NextPhase s = (PhaseWork, s\<lparr>currentPhase := PhaseWork, phasesComplete := phasesComplete s + 1\<rparr>)"
  by (auto simp add: NextPhase_def Let_def)


text \<open>
  Claim C2. From \<^verbatim>\<open>Work\<close>, \<^verbatim>\<open>NextPhase\<close> increments the count of completed cycles and
  yields \<^verbatim>\<open>Done\<close> when a bound \<open>C > 0\<close> is configured and the new count has reached it (in
  particular when the new count is \<open>C\<close>); otherwise it yields \<^verbatim>\<open>LongBreak\<close> exactly when
  \<open>F > 0\<close> and \<open>F\<close> divides the new count, and \<^verbatim>\<open>ShortBreak\<close> else. From either break it
  yields \<^verbatim>\<open>Work\<close>. Every call that does not start from \<^verbatim>\<open>Done\<close> adds one to the count
  of completed phases. The phase returned is the phase stored.
\<close>

theorem NextPhase_transitions:
  "(currentPhase s = PhaseWork \<longrightarrow>
      cyclesComplete (snd (NextPhase s)) = cyclesComplete s + 1
      \<and> fst (NextPhase s) =
          (if 0 <s TotalCycles (config s) \<and> TotalCycles (config s) \<le>s cyclesComplete s + 1
           then PhaseDone
           else if 0 <s LongBreakEvery (config s)
                   \<and> sint (LongBreakEvery (config s)) dvd sint (cyclesComplete s + 1)
           then PhaseLongBreak
           else PhaseShortBreak)
      \<and> (0 <s TotalCycles (config s) \<and> cyclesComplete s + 1 = TotalCycles (config s) \<longrightarrow>
           fst (NextPhase s) = PhaseDone))
   \<and> (currentPhase s = PhaseShortBreak \<or> currentPhase s = PhaseLongBreak \<longrightarrow>
        fst (NextPhase s) = PhaseWork \<and> cyclesComplete (snd (NextPhase s)) = cyclesComplete s)
   \<and> (currentPhase s \<noteq> PhaseDone \<longrightarrow>
        phasesComplete (snd (NextPhase s)) = phasesComplete s + 1)
   \<and> currentPhase (snd (NextPhase s)) = fst (NextPhase s)"
proof -
  have work: "?thesis" if "currentPhase s = PhaseWork"
    using that by (simp add: NextPhase_Work Let_def)
  have break: "?thesis" if "currentPhase s = PhaseShortBreak \<or> currentPhase s = PhaseLongBreak"
    using that by (auto simp add: NextPhase_Break)
  have fin: "?thesis" if "currentPhase s = PhaseDone"
    using that by (simp add: NextPhase_Done)
  show ?thesis using work break fin by (cases "currentPhase s") blast+
qed

text \<open>The fourth completion of four cycles: \<^verbatim>\<open>Done\<close>, with seven phases completed.\<close>

theorem NextPhase_transitions_witness:
  "currentPhase (sess PhaseWork 3 6) = PhaseWork
   \<and> 0 <s TotalCycles (config (sess PhaseWork 3 6))
   \<and> cyclesComplete (sess PhaseWork 3 6) + 1 = TotalCycles (config (sess PhaseWork 3 6))
   \<and> fst (NextPhase (sess PhaseWork 3 6)) = PhaseDone
   \<and> cyclesComplete (snd (NextPhase (sess PhaseWork 3 6))) = 4
   \<and> phasesComplete (snd (NextPhase (sess PhaseWork 3 6))) = 7"
proof -
  have 1: "currentPhase (sess PhaseWork 3 6) = PhaseWork"
    by (simp add: sess_def)
  have 2: "0 <s TotalCycles (config (sess PhaseWork 3 6))"
    by (simp add: sess_def cfg42_def NewSession_def word_sless_alt)
  have 3: "cyclesComplete (sess PhaseWork 3 6) + 1 = TotalCycles (config (sess PhaseWork 3 6))"
    by (simp add: sess_def cfg42_def NewSession_def)
  have 4: "cyclesComplete (sess PhaseWork 3 6) + 1 = 4" "phasesComplete (sess PhaseWork 3 6) + 1 = 7"
    by (simp_all add: sess_def)
  show ?thesis
    using NextPhase_transitions [of "sess PhaseWork 3 6"] 1 2 3 4 by simp
qed

text \<open>
  Claim C6. On a session whose phase is \<^verbatim>\<open>Done\<close>, \<^verbatim>\<open>NextPhase\<close> returns \<^verbatim>\<open>Done\<close> and the
  session unchanged, all fields included; calling it again gives the same.
\<close>

theorem NextPhase_Done_idempotent:
  "currentPhase s = PhaseDone \<longrightarrow>
     NextPhase s = (PhaseDone, s) \<and> NextPhase (snd (NextPhase s)) = NextPhase s"
  by (simp add: NextPhase_Done)

theorem NextPhase_Done_idempotent_witness:
  "currentPhase (sess PhaseDone 4 7) = PhaseDone
   \<and> NextPhase (sess PhaseDone 4 7) = (PhaseDone, sess PhaseDone 4 7)"
  using NextPhase_Done_idempotent [of "sess PhaseDone 4 7"]
  by (simp add: sess_def)

lemma NextPhase_frame:
  "\<exists>p c n. snd (NextPhase s) = s\<lparr>currentPhase := p, cyclesComplete := c, phasesComplete := n\<rparr>"
proof (cases "currentPhase s")
  case PhaseWork
  then show ?thesis by (simp add: NextPhase_Work Let_def) blast
next
  case PhaseShortBreak
  then have "snd (NextPhase s) = s\<lparr>currentPhase := PhaseWork, cyclesComplete := cyclesComplete s, phasesComplete := phasesComplete s + 1\<rparr>"
    by (simp add: NextPhase_Break)
  then show ?thesis by blast
next
  case PhaseLongBreak
  then have "snd (NextPhase s) = s\<lparr>currentPhase := PhaseWork, cyclesComplete := cyclesComplete s, phasesComplete := phasesComplete s + 1\<rparr>"
    by (simp add: NextPhase_Break)
  then show ?thesis by blast
next
  case PhaseDone
  then have "snd (NextPhase s) = s\<lparr>currentPhase := currentPhase s, cyclesComplete := cyclesComplete s, phasesComplete := phasesComplete s\<rparr>"
    by (simp add: NextPhase_Done)
  then show ?thesis by blast
qed

lemma NextPhase_config: "config (snd (NextPhase s)) = config s"
  and NextPhase_totalPhases: "totalPhases (snd (NextPhase s)) = totalPhases s"
  using NextPhase_frame [of s] by auto

lemma applyOp_frame:
  "config (snd (applyOp op s)) = config s \<and> totalPhases (snd (applyOp op s)) = totalPhases s"
  by (cases op) (simp_all add: applyOp_def NextPhase_config NextPhase_totalPhases split: prod.split,
      (metis NextPhase_config NextPhase_totalPhases snd_conv)+)

lemma applyOps_frame:
  "config (applyOps ops s) = config s \<and> totalPhases (applyOps ops s) = totalPhases s"
  by (induction ops arbitrary: s) (simp_all add: applyOp_frame)

text \<open>
  Claim C7. No sequence of session operations changes the stored configuration or the
  precomputed total-phase count: \<^verbatim>\<open>NextPhase\<close> changes at most the current phase and the
  two counters, and every other operation returns the session as it was.
\<close>

theorem session_frame:
  "config (applyOps ops s) = config s
   \<and> totalPhases (applyOps ops s) = totalPhases s
   \<and> (\<exists>p c n. snd (NextPhase s) = s\<lparr>currentPhase := p, cyclesComplete := c, phasesComplete := n\<rparr>)
   \<and> (op \<noteq> OpNextPhase \<longrightarrow> snd (applyOp op s) = s)"
proof -
  have "op \<noteq> OpNextPhase \<longrightarrow> snd (applyOp op s) = s"
    by (cases op) (simp_all add: applyOp_def)
  then show ?thesis using applyOps_frame [of ops s] NextPhase_frame [of s] by blast
qed

theorem session_frame_witness:
  "config (applyOps [OpNextPhase, OpPhaseDuration, OpNextPhase, OpTotalPhases] (NewSession cfg42)) = cfg42
   \<and> totalPhases (applyOps [OpNextPhase, OpPhaseDuration, OpNextPhase, OpTotalPhases] (NewSession cfg42)) = 7
   \<and> snd (applyOp OpPhaseDuration (NewSession cfg42)) = NewSession cfg42"
  using session_frame [of "[OpNextPhase, OpPhaseDuration, OpNextPhase, OpTotalPhases]" "NewSession cfg42" OpPhaseDuration]
  by (simp add: NewSession_def cfg42_def calculateTotalPhases_closed)

section \<open>Properties of the timer\<close>

subsection \<open>Events\<close>

lemma time_Sub_nonneg: "u \<le> t \<Longrightarrow> 0 \<le>s time_Sub t u"
proof -
  assume le: "u \<le> t"
  show ?thesis
  proof (cases "2 ^ 63 - 1 < t - u")
    case True
    with le show ?thesis by (simp add: time_Sub_def Let_def word_sle_eq sint_in_range)
  next
    case False
    with le have "sint (word_of_int (t - u) :: go_int) = t - u"
      by (intro sint_in_range) auto
    with le False show ?thesis by (simp add: time_Sub_def Let_def word_sle_eq)
  qed
qed

lemma mkEvent_fields:
  "evPhase (mkEvent f s d e) = CurrentPhase s"
  "evElapsed (mkEvent f s d e) = e"
  "evTotal (mkEvent f s d e) = d"
  "evPhaseComplete (mkEvent f s d e) = (d \<le>s e)"
  "evCycleNum (mkEvent f s d e) = CyclesComplete s + 1"
  "evTotalCycles (mkEvent f s d e) = SessionTotalCycles s"
  "evPhaseNum (mkEvent f s d e) = PhasesComplete s + 1"
  "evTotalPhases (mkEvent f s d e) = TotalPhases s"
  by (simp_all add: mkEvent_def Let_def)

lemma mkEvent_remaining: "0 \<le>s evRemaining (mkEvent f s d e)"
  by (simp add: mkEvent_def Let_def word_sle_eq word_sless_alt)

lemma mkEvent_remaining_eq:
  "evRemaining (mkEvent f s d e) = (if d - e <s 0 then 0 else d - e)"
  by (simp add: mkEvent_def Let_def)

lemma mkEvent_fraction_le: "evFraction (mkEvent f s d e) \<le> 1"
  by (simp add: mkEvent_def Let_def)

lemma mkEvent_fraction_eq:
  "evFraction (mkEvent f s d e) =
     min 1 (f (f (real_of_int (sint e)) / f (real_of_int (sint d))))"
  by (simp add: mkEvent_def Let_def min_def)

lemma mkEvent_fraction_ge:
  assumes f: "rounding f" and e: "0 \<le>s e" and d: "0 <s d"
  shows "0 \<le> evFraction (mkEvent f s d e)"
proof -
  have m: "\<And>x y. x \<le> y \<Longrightarrow> f x \<le> f y" and f0: "f 0 = 0" and f1: "f 1 = 1"
    using f by (auto simp add: rounding_def mono_def)
  have "1 \<le> real_of_int (sint d)" using d by (simp add: word_sless_alt del: of_int_sint)
  then have "f 1 \<le> f (real_of_int (sint d))" by (rule m)
  then have fd: "0 < f (real_of_int (sint d))" using f1 by simp
  have "0 \<le> real_of_int (sint e)" using e by (simp add: word_sle_eq del: of_int_sint)
  then have "f 0 \<le> f (real_of_int (sint e))" by (rule m)
  then have fe: "0 \<le> f (real_of_int (sint e))" using f0 by simp
  have "0 \<le> f (real_of_int (sint e)) / f (real_of_int (sint d))" using fd fe by simp
  then have "f 0 \<le> f (f (real_of_int (sint e)) / f (real_of_int (sint d)))" by (rule m)
  then show ?thesis using f0 by (simp add: mkEvent_fraction_eq)
qed

subsection \<open>The loop of one phase\<close>

lemma step_io_simps [simp]:
  "nowCalls (step_io i k as) = Suc (nowCalls i)"
  "selCalls (step_io i k as) = selCalls i + k"
  "trace (step_io i k as) = trace i @ as"
  by (simp_all add: step_io_def)

lemma added_eq: "trace i' = trace i @ zs \<Longrightarrow> added i i' = zs"
  by (simp add: added_def)

lemma added_self [simp]: "added i i = []"
  by (simp add: added_def)

lemma noDone_iff:
  "noDone w a b \<longleftrightarrow> (\<forall>k. a \<le> k \<and> k < b \<longrightarrow> \<not> takesDone (selectAt w k))"
  by (auto simp add: noDone_def list_all_iff)

lemma noDone_empty [simp]: "noDone w a a"
  by (simp add: noDone_def)

lemma noDone_trans: "noDone w a b \<Longrightarrow> noDone w b c \<Longrightarrow> noDone w a c"
  unfolding noDone_iff by (metis not_le_imp_less)

lemma noDone_Suc: "noDone w a (Suc a) \<longleftrightarrow> \<not> takesDone (selectAt w a)"
proof -
  have "\<And>k. a \<le> k \<and> k < Suc a \<longleftrightarrow> k = a" by arith
  then show ?thesis by (simp add: noDone_iff)
qed

declare tickLoop.simps(2) [simp del]

lemma tickLoop_Suc:
  "tickLoop (Suc n) w s d start i =
     (if takesDone (selectAt w (selCalls i)) then Some (Some (ctxErr w), step_io i 1 [RecvDone])
      else if evPhaseComplete (evAt w s d start (nowCalls i))
        then Some (None, step_io i 1 [Send (evAt w s d start (nowCalls i))])
      else if takesDone (selectAt w (Suc (selCalls i)))
        then Some (Some (ctxErr w), step_io i 2 [Send (evAt w s d start (nowCalls i)), RecvDone])
      else tickLoop n w s d start (step_io i 2 [Send (evAt w s d start (nowCalls i)), RecvTick]))"
  by (simp add: tickLoop.simps(2) clockNow_def selectDone_def emit_def Let_def step_io_def evAt_def)

lemma tickLoop_result_induct [consumes 1, case_names CancelSend Complete CancelWait Tick]:
  assumes run: "tickLoop n w s d start i = Some (err, i')"
    and cs: "\<And>i. takesDone (selectAt w (selCalls i)) \<Longrightarrow>
               P i (Some (ctxErr w)) (step_io i 1 [RecvDone])"
    and co: "\<And>i. \<not> takesDone (selectAt w (selCalls i)) \<Longrightarrow>
               evPhaseComplete (evAt w s d start (nowCalls i)) \<Longrightarrow>
               P i None (step_io i 1 [Send (evAt w s d start (nowCalls i))])"
    and cw: "\<And>i. \<not> takesDone (selectAt w (selCalls i)) \<Longrightarrow>
               \<not> evPhaseComplete (evAt w s d start (nowCalls i)) \<Longrightarrow>
               takesDone (selectAt w (Suc (selCalls i))) \<Longrightarrow>
               P i (Some (ctxErr w)) (step_io i 2 [Send (evAt w s d start (nowCalls i)), RecvDone])"
    and tk: "\<And>i m. \<not> takesDone (selectAt w (selCalls i)) \<Longrightarrow>
               \<not> evPhaseComplete (evAt w s d start (nowCalls i)) \<Longrightarrow>
               \<not> takesDone (selectAt w (Suc (selCalls i))) \<Longrightarrow>
               tickLoop m w s d start (step_io i 2 [Send (evAt w s d start (nowCalls i)), RecvTick])
                 = Some (err, i') \<Longrightarrow>
               P (step_io i 2 [Send (evAt w s d start (nowCalls i)), RecvTick]) err i' \<Longrightarrow>
               P i err i'"
  shows "P i err i'"
  using run
proof (induction n arbitrary: i)
  case 0
  then show ?case by simp
next
  case (Suc n)
  show ?case
  proof (cases "takesDone (selectAt w (selCalls i))")
    case True
    with Suc.prems cs [of i] show ?thesis by (simp add: tickLoop_Suc)
  next
    case nd: False
    show ?thesis
    proof (cases "evPhaseComplete (evAt w s d start (nowCalls i))")
      case True
      with nd Suc.prems co [of i] show ?thesis by (simp add: tickLoop_Suc)
    next
      case nc: False
      show ?thesis
      proof (cases "takesDone (selectAt w (Suc (selCalls i)))")
        case True
        with nd nc Suc.prems cw [of i] show ?thesis by (simp add: tickLoop_Suc)
      next
        case False
        with nd nc Suc.prems
        have r: "tickLoop n w s d start (step_io i 2 [Send (evAt w s d start (nowCalls i)), RecvTick])
                   = Some (err, i')"
          by (simp add: tickLoop_Suc)
        show ?thesis by (rule tk [OF nd nc False r Suc.IH [OF r]])
      qed
    qed
  qed
qed

lemma tickLoop_prefix:
  "tickLoop n w s d start i = Some (err, i') \<Longrightarrow> \<exists>tr. trace i' = trace i @ tr"
  by (induction rule: tickLoop_result_induct) auto

lemma tickLoop_trace:
  assumes "tickLoop n w s d start i = Some (err, i')"
  shows "trace i' = trace i @ added i i'"
proof -
  from tickLoop_prefix [OF assms] obtain tr where t: "trace i' = trace i @ tr" ..
  then have "added i i' = tr" by (rule added_eq)
  with t show ?thesis by simp
qed

lemma added_tick:
  assumes "tickLoop m w s d start (step_io i k as) = Some (err, i')"
  shows "added i i' = as @ added (step_io i k as) i'"
proof -
  have "trace i' = trace i @ (as @ added (step_io i k as) i')"
    using tickLoop_trace [OF assms] by (simp only: step_io_simps append_assoc)
  then show ?thesis by (rule added_eq)
qed

lemma added_step [simp]: "added i (step_io i k as) = as"
  by (simp add: added_def)

lemma tickLoop_counters:
  "tickLoop n w s d start i = Some (err, i') \<Longrightarrow>
     nowCalls i < nowCalls i' \<and> selCalls i < selCalls i'"
  by (induction rule: tickLoop_result_induct) auto

lemma tickLoop_no_Close:
  "tickLoop n w s d start i = Some (err, i') \<Longrightarrow>
     Close \<notin> set (added i i') \<and> TickerStop \<notin> set (added i i') "
  by (induction rule: tickLoop_result_induct) (auto simp add: added_tick)

lemma tickLoop_sends:
  "tickLoop n w s d start i = Some (err, i') \<Longrightarrow>
     \<forall>e. Send e \<in> set (added i i') \<longrightarrow> (\<exists>k\<ge>nowCalls i. e = evAt w s d start k)"
proof (induction rule: tickLoop_result_induct)
  case (Tick i m)
  show ?case
  proof (intro allI impI)
    fix e assume "Send e \<in> set (added i i')"
    then have "e = evAt w s d start (nowCalls i)
        \<or> Send e \<in> set (added (step_io i 2 [Send (evAt w s d start (nowCalls i)), RecvTick]) i')"
      by (simp add: added_tick [OF Tick(4)])
    then show "\<exists>k\<ge>nowCalls i. e = evAt w s d start k"
    proof
      assume "e = evAt w s d start (nowCalls i)"
      then show ?thesis by blast
    next
      assume "Send e \<in> set (added (step_io i 2 [Send (evAt w s d start (nowCalls i)), RecvTick]) i')"
      with Tick(5) obtain k where "Suc (nowCalls i) \<le> k" "e = evAt w s d start k" by auto
      then show ?thesis by (intro exI [of _ k]) simp
    qed
  qed
qed auto

lemma noDone_two:
  "\<not> takesDone (selectAt w a) \<Longrightarrow> \<not> takesDone (selectAt w (Suc a)) \<Longrightarrow> noDone w a (a + 2)"
  unfolding noDone_iff
proof (intro allI impI)
  fix k assume h: "\<not> takesDone (selectAt w a)" "\<not> takesDone (selectAt w (Suc a))" "a \<le> k \<and> k < a + 2"
  then have "k = a \<or> k = Suc a" by arith
  with h show "\<not> takesDone (selectAt w k)" by blast
qed

lemma tickLoop_cancelled:
  "tickLoop n w s d start i = Some (err, i') \<Longrightarrow>
     err \<noteq> None \<longrightarrow>
       err = Some (ctxErr w)
       \<and> (\<exists>pre. added i i' = pre @ [RecvDone] \<and> RecvDone \<notin> set pre)
       \<and> takesDone (selectAt w (selCalls i' - 1))
       \<and> noDone w (selCalls i) (selCalls i' - 1)"
proof (induction rule: tickLoop_result_induct)
  case (CancelSend i)
  then show ?case by simp
next
  case (Complete i)
  then show ?case by simp
next
  case (CancelWait i)
  then show ?case by (simp add: noDone_Suc)
next
  case (Tick i m)
  let ?e = "evAt w s d start (nowCalls i)"
  let ?i1 = "step_io i 2 [Send ?e, RecvTick]"
  show ?case
  proof
    assume ne: "err \<noteq> None"
    with Tick(5) obtain pre where pre: "added ?i1 i' = pre @ [RecvDone]" "RecvDone \<notin> set pre"
      and rest: "err = Some (ctxErr w)" "takesDone (selectAt w (selCalls i' - 1))"
        "noDone w (selCalls i + 2) (selCalls i' - 1)"
      by auto
    have a: "added i i' = ([Send ?e, RecvTick] @ pre) @ [RecvDone]"
      using added_tick [OF Tick(4)] pre by simp
    have n: "noDone w (selCalls i) (selCalls i' - 1)"
      by (rule noDone_trans [OF noDone_two [OF Tick(1) Tick(3)] rest(3)])
    have "\<exists>pre. added i i' = pre @ [RecvDone] \<and> RecvDone \<notin> set pre"
      using pre(2) by (intro exI [of _ "[Send ?e, RecvTick] @ pre"] conjI a) simp
    with rest n show "err = Some (ctxErr w)
       \<and> (\<exists>pre. added i i' = pre @ [RecvDone] \<and> RecvDone \<notin> set pre)
       \<and> takesDone (selectAt w (selCalls i' - 1))
       \<and> noDone w (selCalls i) (selCalls i' - 1)" by blast
  qed
qed

lemma tickLoop_completed:
  "tickLoop n w s d start i = Some (err, i') \<Longrightarrow>
     err = None \<longrightarrow>
       RecvDone \<notin> set (added i i')
       \<and> noDone w (selCalls i) (selCalls i')
       \<and> (\<exists>pre e. added i i' = pre @ [Send e] \<and> evPhaseComplete e
             \<and> (\<forall>e'. Send e' \<in> set pre \<longrightarrow> \<not> evPhaseComplete e'))"
proof (induction rule: tickLoop_result_induct)
  case (CancelSend i)
  then show ?case by simp
next
  case (Complete i)
  then show ?case by (simp add: noDone_Suc)
next
  case (CancelWait i)
  then show ?case by simp
next
  case (Tick i m)
  let ?e = "evAt w s d start (nowCalls i)"
  let ?i1 = "step_io i 2 [Send ?e, RecvTick]"
  show ?case
  proof
    assume ne: "err = None"
    with Tick(5) obtain pre e where pre: "added ?i1 i' = pre @ [Send e]" "evPhaseComplete e"
        "\<forall>e'. Send e' \<in> set pre \<longrightarrow> \<not> evPhaseComplete e'"
      and rest: "RecvDone \<notin> set (added ?i1 i')" "noDone w (selCalls i + 2) (selCalls i')"
      by auto
    have a: "added i i' = ([Send ?e, RecvTick] @ pre) @ [Send e]"
      using added_tick [OF Tick(4)] pre by simp
    have n: "noDone w (selCalls i) (selCalls i')"
      by (rule noDone_trans [OF noDone_two [OF Tick(1) Tick(3)] rest(2)])
    have r: "RecvDone \<notin> set (added i i')"
      using rest(1) added_tick [OF Tick(4)] by simp
    have "\<exists>pre e. added i i' = pre @ [Send e] \<and> evPhaseComplete e
           \<and> (\<forall>e'. Send e' \<in> set pre \<longrightarrow> \<not> evPhaseComplete e')"
      using pre(2,3) Tick(2) by (intro exI [of _ "[Send ?e, RecvTick] @ pre"] exI [of _ e] conjI a) auto
    with n r show "RecvDone \<notin> set (added i i')
       \<and> noDone w (selCalls i) (selCalls i')
       \<and> (\<exists>pre e. added i i' = pre @ [Send e] \<and> evPhaseComplete e
             \<and> (\<forall>e'. Send e' \<in> set pre \<longrightarrow> \<not> evPhaseComplete e'))" by blast
  qed
qed

subsection \<open>One phase\<close>

lemma added_trans:
  "trace i1 = trace i @ a \<Longrightarrow> trace i' = trace i1 @ b \<Longrightarrow> added i i' = a @ b"
  by (simp add: added_def)

lemma emit_simps [simp]:
  "nowCalls (emit a i) = nowCalls i"
  "selCalls (emit a i) = selCalls i"
  "trace (emit a i) = trace i @ [a]"
  by (simp_all add: emit_def)

lemma runPhase_zero:
  "PhaseDuration (session t) = 0 \<Longrightarrow> runPhase n w t i = Some (None, i)"
  by (simp add: runPhase_def)

lemma runPhase_nonzero:
  "PhaseDuration (session t) \<noteq> 0 \<Longrightarrow>
   runPhase n w t i =
     (case tickLoop n w (session t) (PhaseDuration (session t)) (nowAt w (nowCalls i))
             (step_io i 0 [TickerNew (tickInterval t)]) of
        None \<Rightarrow> None
      | Some (err, i3) \<Rightarrow> Some (err, emit TickerStop i3))"
  by (simp add: runPhase_def clockNow_def emit_def step_io_def Let_def)

lemma runPhase_cases [consumes 1, case_names Skip Ran]:
  assumes "runPhase n w t i = Some (err, i')"
  obtains (Skip) "PhaseDuration (session t) = 0" "err = None" "i' = i"
  | (Ran) i3 where "PhaseDuration (session t) \<noteq> 0"
      "tickLoop n w (session t) (PhaseDuration (session t)) (nowAt w (nowCalls i))
         (step_io i 0 [TickerNew (tickInterval t)]) = Some (err, i3)"
      "i' = emit TickerStop i3"
      "added i i' = TickerNew (tickInterval t) # added (step_io i 0 [TickerNew (tickInterval t)]) i3 @ [TickerStop]"
proof (cases "PhaseDuration (session t) = 0")
  case True
  with assms Skip show ?thesis by (simp add: runPhase_zero)
next
  case False
  let ?i2 = "step_io i 0 [TickerNew (tickInterval t)]"
  from assms False obtain i3 where
    r: "tickLoop n w (session t) (PhaseDuration (session t)) (nowAt w (nowCalls i)) ?i2 = Some (err, i3)"
    and i': "i' = emit TickerStop i3"
    by (auto simp add: runPhase_nonzero split: option.splits)
  have "trace i' = trace i @ (TickerNew (tickInterval t) # added ?i2 i3 @ [TickerStop])"
    using tickLoop_trace [OF r] i' by simp
  then have "added i i' = TickerNew (tickInterval t) # added ?i2 i3 @ [TickerStop]"
    by (rule added_eq)
  with False r i' Ran show ?thesis by blast
qed

lemma runPhase_trace:
  assumes "runPhase n w t i = Some (err, i')"
  shows "trace i' = trace i @ added i i'"
  using assms
proof (cases rule: runPhase_cases)
  case Skip
  then show ?thesis by simp
next
  case (Ran i3)
  then show ?thesis using tickLoop_trace [OF Ran(2)] by simp
qed

lemma runPhase_counters:
  assumes "runPhase n w t i = Some (err, i')"
  shows "nowCalls i \<le> nowCalls i' \<and> selCalls i \<le> selCalls i'"
  using assms
proof (cases rule: runPhase_cases)
  case Skip
  then show ?thesis by simp
next
  case (Ran i3)
  then show ?thesis using tickLoop_counters [OF Ran(2)] by simp
qed

lemma runPhase_no_Close:
  assumes "runPhase n w t i = Some (err, i')"
  shows "Close \<notin> set (added i i')"
  using assms
proof (cases rule: runPhase_cases)
  case Skip
  then show ?thesis by simp
next
  case (Ran i3)
  then show ?thesis using tickLoop_no_Close [OF Ran(2)] by simp
qed

lemma runPhase_cancelled:
  assumes "runPhase n w t i = Some (err, i')" and "err \<noteq> None"
  shows "err = Some (ctxErr w)
       \<and> (\<exists>pre. added i i' = pre @ [RecvDone, TickerStop] \<and> RecvDone \<notin> set pre)
       \<and> selCalls i < selCalls i'
       \<and> takesDone (selectAt w (selCalls i' - 1))
       \<and> noDone w (selCalls i) (selCalls i' - 1)"
  using assms(1)
proof (cases rule: runPhase_cases)
  case Skip
  with assms(2) show ?thesis by simp
next
  case (Ran i3)
  let ?i2 = "step_io i 0 [TickerNew (tickInterval t)]"
  from tickLoop_cancelled [OF Ran(2)] assms(2) obtain pre where
    e: "err = Some (ctxErr w)" and pre: "added ?i2 i3 = pre @ [RecvDone]" "RecvDone \<notin> set pre"
    and s: "takesDone (selectAt w (selCalls i3 - 1))" "noDone w (selCalls ?i2) (selCalls i3 - 1)"
    by blast
  have a: "added i i' = (TickerNew (tickInterval t) # pre) @ [RecvDone, TickerStop]"
    using Ran(4) pre(1) by simp
  have "\<exists>pre. added i i' = pre @ [RecvDone, TickerStop] \<and> RecvDone \<notin> set pre"
    using pre(2) by (intro exI [of _ "TickerNew (tickInterval t) # pre"] conjI a) simp
  moreover have "selCalls i < selCalls i'" using tickLoop_counters [OF Ran(2)] Ran(3) by simp
  ultimately show ?thesis using e s Ran(3) by simp
qed

lemma phaseBodyI:
  assumes "evPhaseComplete e"
    and "\<forall>a \<in> set pre. a = RecvTick \<or> (\<exists>e'. a = Send e' \<and> \<not> evPhaseComplete e')"
  shows "phaseBody (pre @ [Send e, TickerStop])"
  using assms(2)
proof (induction pre)
  case Nil
  then show ?case using assms(1) by simp
next
  case (Cons a pre)
  then have ih: "phaseBody (pre @ [Send e, TickerStop])" by simp
  have ne: "pre @ [Send e, TickerStop] \<noteq> [TickerStop]" by (cases pre) simp_all
  from Cons.prems have "a = RecvTick \<or> (\<exists>e'. a = Send e' \<and> \<not> evPhaseComplete e')" by simp
  with ih ne show ?case by auto
qed

lemma phaseBodyD:
  "phaseBody rest \<Longrightarrow>
      \<exists>pre e. rest = pre @ [Send e, TickerStop] \<and> evPhaseComplete e
        \<and> (\<forall>a \<in> set pre. a = RecvTick \<or> (\<exists>e'. a = Send e' \<and> \<not> evPhaseComplete e'))"
proof (induction rest)
  case Nil
  then show ?case by simp
next
  case (Cons a rest)
  show ?case
  proof (cases "\<exists>e. a = Send e \<and> rest = [TickerStop]")
    case True
    then obtain e where e: "a = Send e" "rest = [TickerStop]" by blast
    with Cons.prems have "evPhaseComplete e" by simp
    with e show ?thesis by (intro exI [of _ "[]"] exI [of _ e]) simp
  next
    case False
    with Cons.prems
    have step: "(a = RecvTick \<or> (\<exists>e'. a = Send e' \<and> \<not> evPhaseComplete e')) \<and> phaseBody rest"
      by (cases a) (auto split: if_splits)
    with Cons.IH obtain pre e where "rest = pre @ [Send e, TickerStop]" "evPhaseComplete e"
      "\<forall>a \<in> set pre. a = RecvTick \<or> (\<exists>e'. a = Send e' \<and> \<not> evPhaseComplete e')" by blast
    with step show ?thesis by (intro exI [of _ "a # pre"] exI [of _ e]) simp
  qed
qed

lemma phaseSegmentD:
  assumes "phaseSegment seg"
  shows "\<exists>d pre e. seg = TickerNew d # pre @ [Send e, TickerStop] \<and> evPhaseComplete e
           \<and> (\<forall>a \<in> set pre. a = RecvTick \<or> (\<exists>e'. a = Send e' \<and> \<not> evPhaseComplete e'))"
proof -
  from assms obtain d rest where seg: "seg = TickerNew d # rest" and b: "phaseBody rest"
    by (cases seg rule: phaseSegment.cases) auto
  from phaseBodyD [OF b] seg show ?thesis by auto
qed

lemma phaseSegmentI:
  assumes "evPhaseComplete e"
    and "\<forall>a \<in> set pre. a = RecvTick \<or> (\<exists>e'. a = Send e' \<and> \<not> evPhaseComplete e')"
  shows "phaseSegment (TickerNew d # pre @ [Send e, TickerStop])"
  using phaseBodyI [OF assms] by simp

lemma runPhase_completed:
  assumes "runPhase n w t i = Some (None, i')"
  shows "RecvDone \<notin> set (added i i') \<and> noDone w (selCalls i) (selCalls i')
    \<and> (added i i' = [] \<and> PhaseDuration (session t) = 0
        \<or> phaseSegment (added i i') \<and> PhaseDuration (session t) \<noteq> 0)"
  using assms
proof (cases rule: runPhase_cases)
  case Skip
  then show ?thesis by simp
next
  case (Ran i3)
  let ?i2 = "step_io i 0 [TickerNew (tickInterval t)]"
  from tickLoop_completed [OF Ran(2)] obtain pre e where
    r: "RecvDone \<notin> set (added ?i2 i3)" "noDone w (selCalls ?i2) (selCalls i3)"
    and pre: "added ?i2 i3 = pre @ [Send e]" "evPhaseComplete e"
      "\<forall>e'. Send e' \<in> set pre \<longrightarrow> \<not> evPhaseComplete e'"
    by blast
  have nc: "Close \<notin> set pre" "TickerStop \<notin> set pre" "RecvDone \<notin> set pre"
    using tickLoop_no_Close [OF Ran(2)] r(1) pre(1) by simp_all
  have sends: "\<forall>a \<in> set pre. a = RecvTick \<or> (\<exists>e'. a = Send e' \<and> \<not> evPhaseComplete e')"
  proof
    fix a assume a: "a \<in> set pre"
    have "\<forall>a \<in> set (added ?i2 i3). a = RecvTick \<or> a = RecvDone \<or> (\<exists>e. a = Send e)"
      using Ran(2) by (induction rule: tickLoop_result_induct) (auto simp add: added_tick)
    with a pre(1) nc(3) have "a = RecvTick \<or> (\<exists>e. a = Send e)" by auto
    with a pre(3) show "a = RecvTick \<or> (\<exists>e'. a = Send e' \<and> \<not> evPhaseComplete e')" by blast
  qed
  have a: "added i i' = TickerNew (tickInterval t) # pre @ [Send e, TickerStop]"
    using Ran(4) pre(1) by simp
  have "phaseSegment (added i i')"
    unfolding a using pre(2) sends by (rule phaseSegmentI)
  then show ?thesis using r Ran(1,3,4) by simp
qed

lemma runPhase_sends:
  assumes "runPhase n w t i = Some (err, i')" and "Send e \<in> set (added i i')"
  shows "PhaseDuration (session t) \<noteq> 0
     \<and> (\<exists>k>nowCalls i. e = evAt w (session t) (PhaseDuration (session t)) (nowAt w (nowCalls i)) k)"
  using assms(1)
proof (cases rule: runPhase_cases)
  case Skip
  with assms(2) show ?thesis by simp
next
  case (Ran i3)
  with assms(2) have "Send e \<in> set (added (step_io i 0 [TickerNew (tickInterval t)]) i3)" by simp
  with tickLoop_sends [OF Ran(2)] obtain k where "Suc (nowCalls i) \<le> k"
    "e = evAt w (session t) (PhaseDuration (session t)) (nowAt w (nowCalls i)) k" by auto
  with Ran(1) show ?thesis by (intro conjI exI [of _ k]) simp_all
qed

subsection \<open>The run\<close>

declare runLoop.simps(2) [simp del]

lemma runLoop_result_induct [consumes 1, case_names Finished Cancelled Next]:
  assumes run: "runLoop n w t i = Some (err, t', i')"
    and fin: "\<And>t i. CurrentPhase (session t) = PhaseDone \<Longrightarrow> P t i None t i"
    and can: "\<And>t i m x i'. CurrentPhase (session t) \<noteq> PhaseDone \<Longrightarrow>
                runPhase m w t i = Some (Some x, i') \<Longrightarrow> P t i (Some x) t i'"
    and nxt: "\<And>t i m i1. CurrentPhase (session t) \<noteq> PhaseDone \<Longrightarrow>
                runPhase m w t i = Some (None, i1) \<Longrightarrow>
                runLoop m w (advanceSession t) i1 = Some (err, t', i') \<Longrightarrow>
                P (advanceSession t) i1 err t' i' \<Longrightarrow> P t i err t' i'"
  shows "P t i err t' i'"
  using run
proof (induction n arbitrary: t i)
  case 0
  then show ?case by simp
next
  case (Suc n)
  show ?case
  proof (cases "CurrentPhase (session t) = PhaseDone")
    case True
    with Suc.prems fin [of t i] show ?thesis by (simp add: runLoop.simps(2))
  next
    case nd: False
    from Suc.prems nd obtain r where r: "runPhase n w t i = Some r"
      by (auto simp add: runLoop.simps(2) split: option.splits)
    obtain e i1 where r': "r = (e, i1)" by (cases r)
    show ?thesis
    proof (cases e)
      case None
      with Suc.prems nd r r' have l: "runLoop n w (advanceSession t) i1 = Some (err, t', i')"
        by (simp add: runLoop.simps(2) advanceSession_def)
      from r r' None have p: "runPhase n w t i = Some (None, i1)" by simp
      show ?thesis by (rule nxt [OF nd p l Suc.IH [OF l]])
    next
      case (Some x)
      with Suc.prems nd r r' have "err = Some x" "t' = t" "i' = i1"
        by (simp_all add: runLoop.simps(2))
      with can [OF nd] r r' Some show ?thesis by simp
    qed
  qed
qed

lemma runLoop_prefix:
  "runLoop n w t i = Some (err, t', i') \<Longrightarrow> \<exists>tr. trace i' = trace i @ tr"
proof (induction rule: runLoop_result_induct)
  case (Finished t i)
  then show ?case by simp
next
  case (Cancelled t i m x i')
  then show ?case using runPhase_trace by blast
next
  case (Next t i m i1)
  then show ?case using runPhase_trace [OF Next(2)] by (metis append_assoc)
qed

lemma runLoop_trace:
  assumes "runLoop n w t i = Some (err, t', i')"
  shows "trace i' = trace i @ added i i'"
proof -
  from runLoop_prefix [OF assms] obtain tr where t: "trace i' = trace i @ tr" ..
  then have "added i i' = tr" by (rule added_eq)
  with t show ?thesis by simp
qed

lemma added_next:
  assumes "runPhase m w t i = Some (e, i1)" and "runLoop m' w t1 i1 = Some (err, t', i')"
  shows "added i i' = added i i1 @ added i1 i'"
  by (rule added_trans [OF runPhase_trace [OF assms(1)] runLoop_trace [OF assms(2)]])

lemma runLoop_counters:
  "runLoop n w t i = Some (err, t', i') \<Longrightarrow> nowCalls i \<le> nowCalls i' \<and> selCalls i \<le> selCalls i'"
proof (induction rule: runLoop_result_induct)
  case (Finished t i)
  then show ?case by simp
next
  case (Cancelled t i m x i')
  then show ?case using runPhase_counters by blast
next
  case (Next t i m i1)
  then show ?case using runPhase_counters [OF Next(2)] by simp
qed

lemma runLoop_no_Close:
  "runLoop n w t i = Some (err, t', i') \<Longrightarrow> Close \<notin> set (added i i')"
proof (induction rule: runLoop_result_induct)
  case (Finished t i)
  then show ?case by simp
next
  case (Cancelled t i m x i')
  then show ?case using runPhase_no_Close by blast
next
  case (Next t i m i1)
  then show ?case using runPhase_no_Close [OF Next(2)] added_next [OF Next(2,3)] by simp
qed

lemma runLoop_Done_iff:
  "runLoop n w t i = Some (err, t', i') \<Longrightarrow> err = None \<longleftrightarrow> CurrentPhase (session t') = PhaseDone"
  by (induction rule: runLoop_result_induct) simp_all

lemma runLoop_session:
  "runLoop n w t i = Some (err, t', i') \<Longrightarrow>
     tickInterval t' = tickInterval t \<and> (\<exists>j. session t' = nthSession j (session t))"
proof (induction rule: runLoop_result_induct)
  case (Finished t i)
  show ?case by (intro conjI exI [of _ 0]) simp_all
next
  case (Cancelled t i m x i')
  show ?case by (intro conjI exI [of _ 0]) simp_all
next
  case (Next t i m i1)
  then obtain j where "session t' = nthSession j (session (advanceSession t))" by blast
  then have "session t' = nthSession (Suc j) (session t)"
    by (simp add: advanceSession_def)
  then have "\<exists>j. session t' = nthSession j (session t)" ..
  moreover have "tickInterval t' = tickInterval t"
    using Next(4) by (simp add: advanceSession_def)
  ultimately show ?case by simp
qed

lemma runLoop_cancelled:
  "runLoop n w t i = Some (err, t', i') \<Longrightarrow>
     err \<noteq> None \<longrightarrow>
       err = Some (ctxErr w)
       \<and> (\<exists>pre. added i i' = pre @ [RecvDone, TickerStop] \<and> RecvDone \<notin> set pre)
       \<and> selCalls i < selCalls i'
       \<and> takesDone (selectAt w (selCalls i' - 1))
       \<and> noDone w (selCalls i) (selCalls i' - 1)"
proof (induction rule: runLoop_result_induct)
  case (Finished t i)
  then show ?case by simp
next
  case (Cancelled t i m x i')
  then show ?case using runPhase_cancelled [OF Cancelled(2)] by simp
next
  case (Next t i m i1)
  show ?case
  proof
    assume ne: "err \<noteq> None"
    with Next(4) obtain pre where e: "err = Some (ctxErr w)"
      and pre: "added i1 i' = pre @ [RecvDone, TickerStop]" "RecvDone \<notin> set pre"
      and s: "selCalls i1 < selCalls i'" "takesDone (selectAt w (selCalls i' - 1))"
        "noDone w (selCalls i1) (selCalls i' - 1)"
      by blast
    from runPhase_completed [OF Next(2)] have
      c: "RecvDone \<notin> set (added i i1)" "noDone w (selCalls i) (selCalls i1)" by simp_all
    have a: "added i i' = (added i i1 @ pre) @ [RecvDone, TickerStop]"
      using added_next [OF Next(2,3)] pre(1) by simp
    have "\<exists>pre. added i i' = pre @ [RecvDone, TickerStop] \<and> RecvDone \<notin> set pre"
      using pre(2) c(1) by (intro exI [of _ "added i i1 @ pre"] conjI a) simp
    moreover have "selCalls i < selCalls i'" using runPhase_counters [OF Next(2)] s(1) by simp
    moreover have "noDone w (selCalls i) (selCalls i' - 1)" by (rule noDone_trans [OF c(2) s(3)])
    ultimately show "err = Some (ctxErr w)
       \<and> (\<exists>pre. added i i' = pre @ [RecvDone, TickerStop] \<and> RecvDone \<notin> set pre)
       \<and> selCalls i < selCalls i'
       \<and> takesDone (selectAt w (selCalls i' - 1))
       \<and> noDone w (selCalls i) (selCalls i' - 1)" using e s(2) by blast
  qed
qed

lemma runLoop_completed:
  "runLoop n w t i = Some (err, t', i') \<Longrightarrow>
     err = None \<longrightarrow>
       RecvDone \<notin> set (added i i') \<and> noDone w (selCalls i) (selCalls i')
       \<and> (\<exists>segs. added i i' = concat segs \<and> (\<forall>seg \<in> set segs. phaseSegment seg))"
proof (induction rule: runLoop_result_induct)
  case (Finished t i)
  show ?case by (intro impI conjI exI [of _ "[]"]) simp_all
next
  case (Cancelled t i m x i')
  then show ?case by simp
next
  case (Next t i m i1)
  show ?case
  proof
    assume "err = None"
    with Next(4) obtain segs where r: "RecvDone \<notin> set (added i1 i')" "noDone w (selCalls i1) (selCalls i')"
      and segs: "added i1 i' = concat segs" "\<forall>seg \<in> set segs. phaseSegment seg" by blast
    from runPhase_completed [OF Next(2)] have
      c: "RecvDone \<notin> set (added i i1)" "noDone w (selCalls i) (selCalls i1)"
        "added i i1 = [] \<or> phaseSegment (added i i1)" by auto
    have a: "added i i' = added i i1 @ concat segs"
      using added_next [OF Next(2,3)] segs(1) by simp
    have "\<exists>segs. added i i' = concat segs \<and> (\<forall>seg \<in> set segs. phaseSegment seg)"
    proof (cases "added i i1 = []")
      case True
      with a segs(2) show ?thesis by (intro exI [of _ segs]) simp
    next
      case False
      with c(3) have "phaseSegment (added i i1)" by simp
      with a segs(2) show ?thesis by (intro exI [of _ "added i i1 # segs"]) simp
    qed
    moreover have "RecvDone \<notin> set (added i i')" using a c(1) r(1) segs(1) by simp
    moreover have "noDone w (selCalls i) (selCalls i')" by (rule noDone_trans [OF c(2) r(2)])
    ultimately show "RecvDone \<notin> set (added i i') \<and> noDone w (selCalls i) (selCalls i')
       \<and> (\<exists>segs. added i i' = concat segs \<and> (\<forall>seg \<in> set segs. phaseSegment seg))" by blast
  qed
qed

lemma runLoop_sends:
  "runLoop n w t i = Some (err, t', i') \<Longrightarrow>
     \<forall>e. Send e \<in> set (added i i') \<longrightarrow>
       (\<exists>j k0 k. k0 < k \<and> PhaseDuration (nthSession j (session t)) \<noteq> 0
          \<and> e = evAt w (nthSession j (session t)) (PhaseDuration (nthSession j (session t))) (nowAt w k0) k)"
proof (induction rule: runLoop_result_induct)
  case (Finished t i)
  then show ?case by simp
next
  case (Cancelled t i m x i')
  show ?case
  proof (intro allI impI)
    fix e assume "Send e \<in> set (added i i')"
    from runPhase_sends [OF Cancelled(2) this] obtain k where "nowCalls i < k"
      "PhaseDuration (session t) \<noteq> 0"
      "e = evAt w (session t) (PhaseDuration (session t)) (nowAt w (nowCalls i)) k" by blast
    then show "\<exists>j k0 k. k0 < k \<and> PhaseDuration (nthSession j (session t)) \<noteq> 0
          \<and> e = evAt w (nthSession j (session t)) (PhaseDuration (nthSession j (session t))) (nowAt w k0) k"
      by (intro exI [of _ 0] exI [of _ "nowCalls i"] exI [of _ k]) simp
  qed
next
  case (Next t i m i1)
  show ?case
  proof (intro allI impI)
    fix e assume "Send e \<in> set (added i i')"
    then have "Send e \<in> set (added i i1) \<or> Send e \<in> set (added i1 i')"
      using added_next [OF Next(2,3)] by simp
    then show "\<exists>j k0 k. k0 < k \<and> PhaseDuration (nthSession j (session t)) \<noteq> 0
          \<and> e = evAt w (nthSession j (session t)) (PhaseDuration (nthSession j (session t))) (nowAt w k0) k"
    proof
      assume "Send e \<in> set (added i i1)"
      from runPhase_sends [OF Next(2) this] obtain k where "nowCalls i < k"
        "PhaseDuration (session t) \<noteq> 0"
        "e = evAt w (session t) (PhaseDuration (session t)) (nowAt w (nowCalls i)) k" by blast
      then show ?thesis
        by (intro exI [of _ 0] exI [of _ "nowCalls i"] exI [of _ k]) simp
    next
      assume "Send e \<in> set (added i1 i')"
      with Next(4) obtain j k0 k where "k0 < k"
        "PhaseDuration (nthSession j (session (advanceSession t))) \<noteq> 0"
        "e = evAt w (nthSession j (session (advanceSession t)))
               (PhaseDuration (nthSession j (session (advanceSession t)))) (nowAt w k0) k" by blast
      then show ?thesis
        by (intro exI [of _ "Suc j"] exI [of _ k0] exI [of _ k])
          (simp add: advanceSession_def)
    qed
  qed
qed

text \<open>A run that returns with some fuel returns the same with more.\<close>

lemma tickLoop_fuel_mono:
  "tickLoop n w s d start i = Some r \<Longrightarrow> n \<le> n' \<Longrightarrow> tickLoop n' w s d start i = Some r"
proof (induction n arbitrary: n' i)
  case 0
  then show ?case by simp
next
  case (Suc n)
  from Suc.prems(2) obtain k where k: "n' = Suc k" "n \<le> k" by (cases n') auto
  show ?case
    using Suc.prems(1) Suc.IH [OF _ k(2)] unfolding k(1)
    by (simp add: tickLoop_Suc split: if_splits)
qed

lemma runPhase_fuel_mono:
  "runPhase n w t i = Some r \<Longrightarrow> n \<le> n' \<Longrightarrow> runPhase n' w t i = Some r"
proof (cases "PhaseDuration (session t) = 0")
  case True
  then show "runPhase n w t i = Some r \<Longrightarrow> runPhase n' w t i = Some r"
    by (simp add: runPhase_zero)
next
  case False
  assume r: "runPhase n w t i = Some r" and le: "n \<le> n'"
  from r False obtain r' where
    "tickLoop n w (session t) (PhaseDuration (session t)) (nowAt w (nowCalls i))
       (step_io i 0 [TickerNew (tickInterval t)]) = Some r'"
    by (auto simp add: runPhase_nonzero split: option.splits)
  from this tickLoop_fuel_mono [OF this le] r False show ?thesis
    by (simp add: runPhase_nonzero)
qed

lemma runLoop_fuel_mono:
  "runLoop n w t i = Some r \<Longrightarrow> n \<le> n' \<Longrightarrow> runLoop n' w t i = Some r"
proof (induction n arbitrary: n' t i)
  case 0
  then show ?case by simp
next
  case (Suc n)
  from Suc.prems(2) obtain k where k: "n' = Suc k" "n \<le> k" by (cases n') auto
  show ?case
  proof (cases "CurrentPhase (session t) = PhaseDone")
    case True
    with Suc.prems(1) show ?thesis unfolding k(1) by (simp add: runLoop.simps(2))
  next
    case False
    with Suc.prems(1) obtain p where p: "runPhase n w t i = Some p"
      by (auto simp add: runLoop.simps(2) split: option.splits)
    note p' = runPhase_fuel_mono [OF p k(2)]
    show ?thesis
      using Suc.prems(1) False p p' Suc.IH [OF _ k(2)] unfolding k(1)
      by (auto simp add: runLoop.simps(2) split: option.splits prod.splits)
  qed
qed

lemma Run_fuel_mono:
  "Run n w t i = Some r \<Longrightarrow> n \<le> n' \<Longrightarrow> Run n' w t i = Some r"
  by (auto simp add: Run_def split: option.splits dest: runLoop_fuel_mono)

lemma Run_cases:
  assumes "Run n w t i = Some (err, t', i')"
  obtains i1 where "runLoop n w t i = Some (err, t', i1)" "i' = emit Close i1"
    "added i i' = added i i1 @ [Close]"
proof -
  from assms obtain i1 where r: "runLoop n w t i = Some (err, t', i1)" and i': "i' = emit Close i1"
    by (auto simp add: Run_def split: option.splits)
  have "trace i' = trace i @ (added i i1 @ [Close])"
    using runLoop_trace [OF r] i' by simp
  then have "added i i' = added i i1 @ [Close]" by (rule added_eq)
  with r i' that show ?thesis by blast
qed

text \<open>What holds of every run that returns.\<close>

lemma Run_partial:
  assumes "Run n w t i = Some (err, t', i')"
  shows "(\<exists>tr. trace i' = trace i @ tr @ [Close] \<and> Close \<notin> set tr
            \<and> (err = None \<longrightarrow> RecvDone \<notin> set tr)
            \<and> (err \<noteq> None \<longrightarrow> (\<exists>pre. tr = pre @ [RecvDone, TickerStop] \<and> RecvDone \<notin> set pre)))
       \<and> (err = None \<longleftrightarrow> CurrentPhase (session t') = PhaseDone)
       \<and> (err = None \<longleftrightarrow> noDone w (selCalls i) (selCalls i'))
       \<and> (err \<noteq> None \<longrightarrow>
             err = Some (ctxErr w) \<and> selCalls i < selCalls i'
             \<and> takesDone (selectAt w (selCalls i' - 1))
             \<and> noDone w (selCalls i) (selCalls i' - 1))"
  using assms
proof (cases rule: Run_cases)
  case (1 i1)
  have tr: "trace i' = trace i @ added i i1 @ [Close]"
    using runLoop_trace [OF 1(1)] 1(2) by simp
  have nc: "Close \<notin> set (added i i1)" by (rule runLoop_no_Close [OF 1(1)])
  have ok: "err = None \<longrightarrow> RecvDone \<notin> set (added i i1) \<and> noDone w (selCalls i) (selCalls i1)"
    using runLoop_completed [OF 1(1)] by blast
  have ca: "err \<noteq> None \<longrightarrow>
       err = Some (ctxErr w)
       \<and> (\<exists>pre. added i i1 = pre @ [RecvDone, TickerStop] \<and> RecvDone \<notin> set pre)
       \<and> selCalls i < selCalls i1
       \<and> takesDone (selectAt w (selCalls i1 - 1))
       \<and> noDone w (selCalls i) (selCalls i1 - 1)"
    by (rule runLoop_cancelled [OF 1(1)])
  have nd: "err \<noteq> None \<longrightarrow> \<not> noDone w (selCalls i) (selCalls i1)"
  proof
    assume "err \<noteq> None"
    with ca have "selCalls i < selCalls i1" "takesDone (selectAt w (selCalls i1 - 1))" by simp_all
    then show "\<not> noDone w (selCalls i) (selCalls i1)"
      unfolding noDone_iff by (intro notI) (metis Suc_pred' diff_less less_Suc_eq_le
          less_imp_diff_less less_nat_zero_code not_gr_zero zero_less_one)
  qed
  have p1: "\<exists>tr. trace i' = trace i @ tr @ [Close] \<and> Close \<notin> set tr
            \<and> (err = None \<longrightarrow> RecvDone \<notin> set tr)
            \<and> (err \<noteq> None \<longrightarrow> (\<exists>pre. tr = pre @ [RecvDone, TickerStop] \<and> RecvDone \<notin> set pre))"
    using tr nc ok ca by (intro exI [of _ "added i i1"]) blast
  have p2: "err = None \<longleftrightarrow> CurrentPhase (session t') = PhaseDone"
    by (rule runLoop_Done_iff [OF 1(1)])
  have p3: "err = None \<longleftrightarrow> noDone w (selCalls i) (selCalls i')"
    using ok nd 1(2) by auto
  have p4: "err \<noteq> None \<longrightarrow>
             err = Some (ctxErr w) \<and> selCalls i < selCalls i'
             \<and> takesDone (selectAt w (selCalls i' - 1))
             \<and> noDone w (selCalls i) (selCalls i' - 1)"
    using ca 1(2) by simp
  from p1 p2 p3 p4 show ?thesis by blast
qed

text \<open>
  Every phase returns once a \<^verbatim>\<open>select\<close> takes the \<^verbatim>\<open>ctx.Done()\<close> case, and so does the run
  when it cannot pass from phase to phase without a \<^verbatim>\<open>select\<close>.
\<close>

lemma tickLoop_total:
  assumes "selCalls i \<le> k" and "takesDone (selectAt w k)"
  shows "\<exists>n r. tickLoop n w s d start i = Some r"
  using assms(1)
proof (induction "k - selCalls i" arbitrary: i rule: less_induct)
  case less
  let ?e = "evAt w s d start (nowCalls i)"
  show ?case
  proof (cases "takesDone (selectAt w (selCalls i)) \<or> evPhaseComplete ?e
                  \<or> takesDone (selectAt w (Suc (selCalls i)))")
    case True
    then have "\<exists>r. tickLoop (Suc 0) w s d start i = Some r"
      by (auto simp add: tickLoop_Suc)
    then show ?thesis by blast
  next
    case False
    with assms(2) less.prems have k: "selCalls i \<noteq> k" "Suc (selCalls i) \<noteq> k" by auto
    let ?i1 = "step_io i 2 [Send ?e, RecvTick]"
    from k less.prems have "k - selCalls ?i1 < k - selCalls i" "selCalls ?i1 \<le> k" by simp_all
    from less.hyps [OF this] obtain n r where "tickLoop n w s d start ?i1 = Some r" by blast
    with False have "tickLoop (Suc n) w s d start i = Some r" by (simp add: tickLoop_Suc)
    then show ?thesis by blast
  qed
qed

lemma runPhase_total:
  assumes "selCalls i \<le> k" and "takesDone (selectAt w k)"
  shows "\<exists>n r. runPhase n w t i = Some r"
proof (cases "PhaseDuration (session t) = 0")
  case True
  then show ?thesis by (simp add: runPhase_zero)
next
  case False
  let ?i2 = "step_io i 0 [TickerNew (tickInterval t)]"
  have "selCalls ?i2 \<le> k" using assms(1) by simp
  from tickLoop_total [OF this assms(2)] obtain n r where
    "tickLoop n w (session t) (PhaseDuration (session t)) (nowAt w (nowCalls i)) ?i2 = Some r"
    by blast
  with False have "\<exists>r'. runPhase n w t i = Some r'"
    by (cases r) (simp add: runPhase_nonzero)
  then show ?thesis by blast
qed

lemma zero_phase_next:
  assumes "progressing (config s)" and "PhaseDuration s = 0" and "currentPhase s \<noteq> PhaseDone"
  shows "currentPhase (snd (NextPhase s)) = PhaseDone \<or> PhaseDuration (snd (NextPhase s)) \<noteq> 0"
proof (cases "currentPhase s")
  case PhaseWork
  with assms(1,2) have b: "ShortBreakDuration (config s) \<noteq> 0" "LongBreakDuration (config s) \<noteq> 0"
    by (simp_all add: progressing_def PhaseDuration_def)
  from PhaseWork b show ?thesis
    by (simp add: NextPhase_Work Let_def PhaseDuration_def)
next
  case PhaseShortBreak
  with assms(1,2) have "WorkDuration (config s) \<noteq> 0"
    by (auto simp add: progressing_def PhaseDuration_def)
  with PhaseShortBreak show ?thesis by (simp add: NextPhase_Break PhaseDuration_def)
next
  case PhaseLongBreak
  with assms(1,2) have "WorkDuration (config s) \<noteq> 0"
    by (auto simp add: progressing_def PhaseDuration_def)
  with PhaseLongBreak show ?thesis by (simp add: NextPhase_Break PhaseDuration_def)
next
  case PhaseDone
  with assms(3) show ?thesis by simp
qed

lemma runLoop_step_None:
  assumes "CurrentPhase (session t) \<noteq> PhaseDone" and "runPhase n1 w t i = Some (None, i1)"
    and "runLoop n2 w (advanceSession t) i1 = Some r"
  shows "runLoop (Suc (max n1 n2)) w t i = Some r"
proof -
  have 1: "runPhase (max n1 n2) w t i = Some (None, i1)"
    by (rule runPhase_fuel_mono [OF assms(2)]) simp
  have 2: "runLoop (max n1 n2) w (advanceSession t) i1 = Some r"
    by (rule runLoop_fuel_mono [OF assms(3)]) simp
  from assms(1) 1 2 show ?thesis by (simp add: runLoop.simps(2) advanceSession_def)
qed

lemma runLoop_step_Some:
  assumes "CurrentPhase (session t) \<noteq> PhaseDone" and "runPhase n w t i = Some (Some x, i1)"
  shows "runLoop (Suc n) w t i = Some (Some x, t, i1)"
  using assms by (simp add: runLoop.simps(2))

lemma runLoop_total_nonzero:
  assumes td: "takesDone (selectAt w k)"
    and nd: "CurrentPhase (session t) \<noteq> PhaseDone" and nz: "PhaseDuration (session t) \<noteq> 0"
    and pr: "progressing (config (session t))" and le: "selCalls i \<le> k"
    and hyp: "\<And>t' i'. selCalls i < selCalls i' \<Longrightarrow> selCalls i' \<le> k \<Longrightarrow>
                progressing (config (session t')) \<Longrightarrow> \<exists>n r. runLoop n w t' i' = Some r"
  shows "\<exists>n r. runLoop n w t i = Some r"
proof -
  from runPhase_total [OF le td] obtain n1 r1 where r1: "runPhase n1 w t i = Some r1" by blast
  obtain e i1 where r1': "r1 = (e, i1)" by (cases r1)
  show ?thesis
  proof (cases e)
    case (Some x)
    with runLoop_step_Some [OF nd] r1 r1' show ?thesis by blast
  next
    case None
    with r1 r1' have p: "runPhase n1 w t i = Some (None, i1)" by simp
    from runPhase_completed [OF p] have n: "noDone w (selCalls i) (selCalls i1)" by simp
    have lt: "selCalls i < selCalls i1"
      using p
    proof (cases rule: runPhase_cases)
      case Skip
      with nz show ?thesis by simp
    next
      case (Ran i3)
      from tickLoop_counters [OF Ran(2)] Ran(3) show ?thesis by simp
    qed
    have le1: "selCalls i1 \<le> k"
    proof (rule ccontr)
      assume "\<not> selCalls i1 \<le> k"
      with le n have "\<not> takesDone (selectAt w k)" by (simp add: noDone_iff)
      with td show False by simp
    qed
    have "progressing (config (session (advanceSession t)))"
      using pr by (simp add: advanceSession_def NextPhase_config)
    from hyp [OF lt le1 this] obtain n2 r where "runLoop n2 w (advanceSession t) i1 = Some r"
      by blast
    from runLoop_step_None [OF nd p this] show ?thesis by blast
  qed
qed

lemma runLoop_total:
  assumes "progressing (config (session t))" and "selCalls i \<le> k" and "takesDone (selectAt w k)"
  shows "\<exists>n r. runLoop n w t i = Some r"
  using assms(1,2)
proof (induction "k - selCalls i" arbitrary: t i rule: less_induct)
  case less
  have hyp: "\<exists>n r. runLoop n w t' i' = Some r"
    if "selCalls i < selCalls i'" "selCalls i' \<le> k" "progressing (config (session t'))" for t' i'
  proof -
    from that(1,2) have "k - selCalls i' < k - selCalls i" by simp
    from less.hyps [OF this that(3,2)] show ?thesis .
  qed
  show ?case
  proof (cases "CurrentPhase (session t) = PhaseDone")
    case True
    then have "runLoop (Suc 0) w t i = Some (None, t, i)" by (simp add: runLoop.simps(2))
    then show ?thesis by blast
  next
    case nd: False
    show ?thesis
    proof (cases "PhaseDuration (session t) = 0")
      case False
      show ?thesis
        by (rule runLoop_total_nonzero [OF assms(3) nd False less.prems(1,2) hyp])
    next
      case True
      then have p: "runPhase 0 w t i = Some (None, i)" by (simp add: runPhase_zero)
      let ?t1 = "advanceSession t"
      have pr1: "progressing (config (session ?t1))"
        using less.prems(1) by (simp add: advanceSession_def NextPhase_config)
      from zero_phase_next [OF less.prems(1) True] nd
      have nx: "CurrentPhase (session ?t1) = PhaseDone \<or> PhaseDuration (session ?t1) \<noteq> 0"
        by (simp add: advanceSession_def CurrentPhase_def)
      have "\<exists>n r. runLoop n w ?t1 i = Some r"
      proof (cases "CurrentPhase (session ?t1) = PhaseDone")
        case True
        then have "runLoop (Suc 0) w ?t1 i = Some (None, ?t1, i)" by (simp add: runLoop.simps(2))
        then show ?thesis by blast
      next
        case False
        with nx have nz1: "PhaseDuration (session ?t1) \<noteq> 0" by simp
        show ?thesis
          by (rule runLoop_total_nonzero [OF assms(3) False nz1 pr1 less.prems(2) hyp])
      qed
      then obtain n2 r where "runLoop n2 w ?t1 i = Some r" by blast
      from runLoop_step_None [OF nd p this] show ?thesis by blast
    qed
  qed
qed

lemma runLoop_chain:
  "runLoop n w t i = Some (err, t', i') \<Longrightarrow>
     \<exists>i0. completedPhases w t i t' i0
       \<and> (err = None \<longrightarrow> i0 = i')
       \<and> (\<forall>x. err = Some x \<longrightarrow>
             CurrentPhase (session t') \<noteq> PhaseDone \<and> (\<exists>m. runPhase m w t' i0 = Some (Some x, i')))"
proof (induction rule: runLoop_result_induct)
  case (Finished t i)
  show ?case by (intro exI [of _ i]) (simp add: completedPhases.here)
next
  case (Cancelled t i m x i')
  then show ?case by (intro exI [of _ i]) (auto simp add: completedPhases.here)
next
  case (Next t i m i1)
  then obtain i0 where c: "completedPhases w (advanceSession t) i1 t' i0"
    and r: "err = None \<longrightarrow> i0 = i'"
      "\<forall>x. err = Some x \<longrightarrow>
             CurrentPhase (session t') \<noteq> PhaseDone \<and> (\<exists>m. runPhase m w t' i0 = Some (Some x, i'))"
    by blast
  from completedPhases.phase [OF Next(1,2) c] r show ?case by blast
qed

lemma Run_step_Some:
  assumes "CurrentPhase (session t) \<noteq> PhaseDone" and "runPhase m w t i = Some (Some x, i1)"
  shows "Run (Suc m) w t i = Some (Some x, t, emit Close i1)"
  using runLoop_step_Some [OF assms] by (simp add: Run_def)

lemma Run_chain:
  assumes "Run n w t i = Some (err, t', i')"
  shows "\<exists>i0. completedPhases w t i t' i0
       \<and> (err = None \<longrightarrow> i' = emit Close i0)
       \<and> (\<forall>x. err = Some x \<longrightarrow>
             CurrentPhase (session t') \<noteq> PhaseDone
             \<and> (\<exists>m i1. runPhase m w t' i0 = Some (Some x, i1) \<and> i' = emit Close i1))"
  using assms
proof (cases rule: Run_cases)
  case (1 i1)
  from runLoop_chain [OF 1(1)] obtain i0 where c: "completedPhases w t i t' i0"
    and a: "err = None \<longrightarrow> i0 = i1"
    and b: "\<forall>x. err = Some x \<longrightarrow>
             CurrentPhase (session t') \<noteq> PhaseDone \<and> (\<exists>m. runPhase m w t' i0 = Some (Some x, i1))"
    by blast
  from c a b 1(2) show ?thesis by (intro exI [of _ i0]) blast
qed

lemma first_Done_unique:
  assumes "noDone w a k" "takesDone (selectAt w k)" "noDone w a j" "takesDone (selectAt w j)"
    "a \<le> k" "a \<le> j"
  shows "j = k"
proof (rule ccontr)
  assume "j \<noteq> k"
  then consider "j < k" | "k < j" by arith
  then show False
  proof cases
    case 1
    with assms(1,4,6) show False by (simp add: noDone_iff)
  next
    case 2
    with assms(2,3,5) show False by (simp add: noDone_iff)
  qed
qed

lemma Run_total:
  assumes pr: "progressing (config (session t))" and le: "selCalls i \<le> k"
    and nd: "noDone w (selCalls i) k" and td: "takesDone (selectAt w k)"
  shows "\<exists>n err t' i'. Run n w t i = Some (err, t', i')
            \<and> (err = None \<and> selCalls i' \<le> k \<or> err = Some (ctxErr w) \<and> selCalls i' = Suc k)"
proof -
  from runLoop_total [OF pr le td] obtain n r where r: "runLoop n w t i = Some r" by blast
  obtain err t' i1 where r': "r = (err, t', i1)" by (cases r)
  from r r' have l: "runLoop n w t i = Some (err, t', i1)" by simp
  then have R: "Run n w t i = Some (err, t', emit Close i1)" by (simp add: Run_def)
  have "err = None \<and> selCalls i1 \<le> k \<or> err = Some (ctxErr w) \<and> selCalls i1 = Suc k"
  proof (cases err)
    case None
    with runLoop_completed [OF l] have n: "noDone w (selCalls i) (selCalls i1)" by simp
    have "selCalls i1 \<le> k"
    proof (rule ccontr)
      assume "\<not> selCalls i1 \<le> k"
      with le n have "\<not> takesDone (selectAt w k)" by (simp add: noDone_iff)
      with td show False by simp
    qed
    with None show ?thesis by simp
  next
    case (Some x)
    with runLoop_cancelled [OF l] have e: "err = Some (ctxErr w)" and lt: "selCalls i < selCalls i1"
      and t1: "takesDone (selectAt w (selCalls i1 - 1))" and n1: "noDone w (selCalls i) (selCalls i1 - 1)"
      by simp_all
    from lt have "selCalls i \<le> selCalls i1 - 1" by simp
    from first_Done_unique [OF nd td n1 t1 le this] lt have "selCalls i1 = Suc k" by simp
    with e show ?thesis by simp
  qed
  with R show ?thesis by (intro exI [of _ n] exI [of _ err] exI [of _ t'] exI [of _ "emit Close i1"]) simp
qed

lemma runLoop_resume:
  "completedPhases w t i t2 i2 \<Longrightarrow> runLoop n2 w t2 i2 = Some r \<Longrightarrow> \<exists>n. runLoop n w t i = Some r"
proof (induction rule: completedPhases.induct)
  case (here t i)
  then show ?case by blast
next
  case (phase t n i i1 t' i')
  from phase.IH [OF phase.prems] obtain n1 where "runLoop n1 w (advanceSession t) i1 = Some r" ..
  from runLoop_step_None [OF phase.hyps(1,2) this] show ?case ..
qed

lemma Run_resume:
  assumes "completedPhases w t i t2 i2"
  shows "(CurrentPhase (session t2) = PhaseDone \<longrightarrow>
            (\<exists>n. Run n w t i = Some (None, t2, emit Close i2)))
       \<and> (CurrentPhase (session t2) \<noteq> PhaseDone \<and> runPhase m w t2 i2 = Some (Some x, i1) \<longrightarrow>
            (\<exists>n. Run n w t i = Some (Some x, t2, emit Close i1)))"
proof (intro conjI impI)
  assume "CurrentPhase (session t2) = PhaseDone"
  then have "runLoop (Suc 0) w t2 i2 = Some (None, t2, i2)" by (simp add: runLoop.simps(2))
  from runLoop_resume [OF assms this] obtain n where "runLoop n w t i = Some (None, t2, i2)" ..
  then have "Run n w t i = Some (None, t2, emit Close i2)" by (simp add: Run_def)
  then show "\<exists>n. Run n w t i = Some (None, t2, emit Close i2)" ..
next
  assume "CurrentPhase (session t2) \<noteq> PhaseDone \<and> runPhase m w t2 i2 = Some (Some x, i1)"
  then have "runLoop (Suc m) w t2 i2 = Some (Some x, t2, i1)" by (simp add: runLoop_step_Some)
  from runLoop_resume [OF assms this] obtain n where "runLoop n w t i = Some (Some x, t2, i1)" ..
  then have "Run n w t i = Some (Some x, t2, emit Close i1)" by (simp add: Run_def)
  then show "\<exists>n. Run n w t i = Some (Some x, t2, emit Close i1)" ..
qed

text \<open>
  Claim C3, as the code has it. Of a run that returns: the event stream is closed at
  the end of every return, and only there; the run returns \<^verbatim>\<open>nil\<close> exactly when its
  session is at \<^verbatim>\<open>Done\<close>, which is exactly when no \<^verbatim>\<open>select\<close> of the run took the
  \<^verbatim>\<open>ctx.Done()\<close> case; a run that returns an error returns \<^verbatim>\<open>ctx.Err()\<close> from the \<^verbatim>\<open>select\<close>
  that took that case, the last one resolved and the first to take it, and nothing is
  sent after it (the ticker is stopped and the stream closed). The run consists of
  phases that ran to their end, each followed by \<^verbatim>\<open>NextPhase\<close>, and then, when an error
  is returned, of the phase that \<^verbatim>\<open>runPhase\<close> returned the error from: the timer is
  returned with the session that phase was entered with, so \<^verbatim>\<open>NextPhase\<close> is not called
  after a cancelled phase. Conversely, after phases that ran to their end, \<^verbatim>\<open>Run\<close>
  returns \<^verbatim>\<open>nil\<close> if the session is at \<^verbatim>\<open>Done\<close>, and returns the error with the session
  unchanged if \<^verbatim>\<open>runPhase\<close> returns an error from the next phase. And the run does
  return: a phase returns once a \<^verbatim>\<open>select\<close> at or after its start would take the
  \<^verbatim>\<open>ctx.Done()\<close> case, and when the work duration or both break durations are not zero and the
  \<^verbatim>\<open>select\<close> number \<open>k\<close> is the first that would take the \<^verbatim>\<open>ctx.Done()\<close> case, \<^verbatim>\<open>Run\<close>
  returns \<^verbatim>\<open>nil\<close> without reaching that \<^verbatim>\<open>select\<close>, or \<^verbatim>\<open>ctx.Err()\<close> from it.
\<close>

theorem Run_outcome:
  "(Run n w t i = Some (err, t', i') \<longrightarrow>
      (\<exists>tr. trace i' = trace i @ tr @ [Close] \<and> Close \<notin> set tr
            \<and> (err = None \<longrightarrow> RecvDone \<notin> set tr)
            \<and> (err \<noteq> None \<longrightarrow> (\<exists>pre. tr = pre @ [RecvDone, TickerStop] \<and> RecvDone \<notin> set pre)))
      \<and> (err = None \<longleftrightarrow> CurrentPhase (session t') = PhaseDone)
      \<and> (err = None \<longleftrightarrow> noDone w (selCalls i) (selCalls i'))
      \<and> (err \<noteq> None \<longrightarrow>
             err = Some (ctxErr w) \<and> selCalls i < selCalls i'
             \<and> takesDone (selectAt w (selCalls i' - 1))
             \<and> noDone w (selCalls i) (selCalls i' - 1))
      \<and> (\<exists>i0. completedPhases w t i t' i0
             \<and> (err = None \<longrightarrow> i' = emit Close i0)
             \<and> (\<forall>x. err = Some x \<longrightarrow>
                   CurrentPhase (session t') \<noteq> PhaseDone
                   \<and> (\<exists>m i1. runPhase m w t' i0 = Some (Some x, i1) \<and> i' = emit Close i1))))
   \<and> (completedPhases w t i t2 i2 \<longrightarrow>
        (CurrentPhase (session t2) = PhaseDone \<longrightarrow>
            (\<exists>n. Run n w t i = Some (None, t2, emit Close i2)))
        \<and> (CurrentPhase (session t2) \<noteq> PhaseDone \<and> runPhase m w t2 i2 = Some (Some x, i1) \<longrightarrow>
            (\<exists>n. Run n w t i = Some (Some x, t2, emit Close i1))))
   \<and> (selCalls i \<le> k \<and> takesDone (selectAt w k) \<longrightarrow> (\<exists>n r. runPhase n w t i = Some r))
   \<and> (progressing (config (session t)) \<and> selCalls i \<le> k \<and> noDone w (selCalls i) k
        \<and> takesDone (selectAt w k) \<longrightarrow>
        (\<exists>n err t' i'. Run n w t i = Some (err, t', i')
            \<and> (err = None \<and> selCalls i' \<le> k \<or> err = Some (ctxErr w) \<and> selCalls i' = Suc k)))"
proof (intro conjI impI)
  assume r: "Run n w t i = Some (err, t', i')"
  from Run_partial [OF r] show
    "\<exists>tr. trace i' = trace i @ tr @ [Close] \<and> Close \<notin> set tr
            \<and> (err = None \<longrightarrow> RecvDone \<notin> set tr)
            \<and> (err \<noteq> None \<longrightarrow> (\<exists>pre. tr = pre @ [RecvDone, TickerStop] \<and> RecvDone \<notin> set pre))"
    "err = None \<longleftrightarrow> CurrentPhase (session t') = PhaseDone"
    "err = None \<longleftrightarrow> noDone w (selCalls i) (selCalls i')"
    by blast+
  show "err = Some (ctxErr w)" "selCalls i < selCalls i'"
    "takesDone (selectAt w (selCalls i' - 1))" "noDone w (selCalls i) (selCalls i' - 1)"
    if "err \<noteq> None"
    using Run_partial [OF r] that by blast+
  show "\<exists>i0. completedPhases w t i t' i0
             \<and> (err = None \<longrightarrow> i' = emit Close i0)
             \<and> (\<forall>x. err = Some x \<longrightarrow>
                   CurrentPhase (session t') \<noteq> PhaseDone
                   \<and> (\<exists>m i1. runPhase m w t' i0 = Some (Some x, i1) \<and> i' = emit Close i1))"
    by (rule Run_chain [OF r])
next
  assume c: "completedPhases w t i t2 i2"
  show "\<exists>n. Run n w t i = Some (None, t2, emit Close i2)"
    if "CurrentPhase (session t2) = PhaseDone"
    using Run_resume [OF c, THEN conjunct1] that by (rule mp)
  show "\<exists>n. Run n w t i = Some (Some x, t2, emit Close i1)"
    if "CurrentPhase (session t2) \<noteq> PhaseDone \<and> runPhase m w t2 i2 = Some (Some x, i1)"
    using Run_resume [OF c, THEN conjunct2] that by (rule mp)
next
  assume "selCalls i \<le> k \<and> takesDone (selectAt w k)"
  then show "\<exists>n r. runPhase n w t i = Some r"
    using runPhase_total [of i k w t] by blast
next
  assume "progressing (config (session t)) \<and> selCalls i \<le> k \<and> noDone w (selCalls i) k
        \<and> takesDone (selectAt w k)"
  then show "\<exists>n err t' i'. Run n w t i = Some (err, t', i')
            \<and> (err = None \<and> selCalls i' \<le> k \<or> err = Some (ctxErr w) \<and> selCalls i' = Suc k)"
    using Run_total by blast
qed

text \<open>
  A run without a bound on its cycles, cancelled after its first phase: the error is
  returned with the session at the break that was cancelled, one \<^verbatim>\<open>NextPhase\<close> after
  the start.
\<close>

theorem Run_outcome_witness:
  "Run 3 world_late (NewTimerWithClock cfg_forever 1) io0 =
     Some (Some Canceled, advanceSession (NewTimerWithClock cfg_forever 1), io_late)
   \<and> completedPhases world_late (NewTimerWithClock cfg_forever 1) io0
        (advanceSession (NewTimerWithClock cfg_forever 1)) io_forever
   \<and> CurrentPhase (session (advanceSession (NewTimerWithClock cfg_forever 1))) \<noteq> PhaseDone
   \<and> runPhase 1 world_late (advanceSession (NewTimerWithClock cfg_forever 1)) io_forever =
        Some (Some Canceled, io_cancelled)
   \<and> io_late = emit Close io_cancelled
   \<and> progressing (config (session (NewTimerWithClock cfg_forever 1)))
   \<and> selCalls io0 \<le> 1 \<and> noDone world_late (selCalls io0) 1
   \<and> takesDone (selectAt world_late 1)
   \<and> selCalls io_late = Suc 1
   \<and> \<not> noDone world_late (selCalls io0) (selCalls io_late)
   \<and> (\<exists>n. Run n world_late (NewTimerWithClock cfg_forever 1) io0 =
           Some (Some Canceled, advanceSession (NewTimerWithClock cfg_forever 1), emit Close io_cancelled))
   \<and> (\<exists>n r. runPhase n world_late (NewTimerWithClock cfg_forever 1) io0 = Some r)
   \<and> (\<exists>n err t' i'. Run n world_late (NewTimerWithClock cfg_forever 1) io0 = Some (err, t', i')
          \<and> (err = None \<and> selCalls i' \<le> 1 \<or> err = Some (ctxErr world_late) \<and> selCalls i' = Suc 1))"
proof -
  let ?t = "NewTimerWithClock cfg_forever 1"
  have r: "Run 3 world_late ?t io0 = Some (Some Canceled, advanceSession ?t, io_late)"
    by code_simp
  have p: "runPhase 1 world_late ?t io0 = Some (None, io_forever)" by code_simp
  have nd: "CurrentPhase (session ?t) \<noteq> PhaseDone" by code_simp
  have c: "completedPhases world_late ?t io0 (advanceSession ?t) io_forever"
    by (rule completedPhases.phase [OF nd p completedPhases.here])
  have nd2: "CurrentPhase (session (advanceSession ?t)) \<noteq> PhaseDone" by code_simp
  have p2: "runPhase 1 world_late (advanceSession ?t) io_forever = Some (Some Canceled, io_cancelled)"
    by code_simp
  have cl: "io_late = emit Close io_cancelled" by code_simp
  have g: "progressing (config (session ?t))" "selCalls io0 \<le> 1"
    "noDone world_late (selCalls io0) 1" "takesDone (selectAt world_late 1)"
    by code_simp+
  have s: "selCalls io_late = Suc 1" by code_simp
  note E = Run_outcome [where w = world_late and t = ?t and i = io0 and n = 3
      and err = "Some Canceled" and t' = "advanceSession ?t" and i' = io_late
      and ?t2.0 = "advanceSession ?t" and ?i2.0 = io_forever and m = 1 and x = Canceled
      and ?i1.0 = io_cancelled and k = 1]
  note E1 = E [THEN conjunct1, rule_format, OF r]
  have n: "\<not> noDone world_late (selCalls io0) (selCalls io_late)"
    using E1 [THEN conjunct2, THEN conjunct2, THEN conjunct1] by simp
  note E2 = E [THEN conjunct2, THEN conjunct1, rule_format, OF c, THEN conjunct2, rule_format,
      OF conjI [OF nd2 p2]]
  have h3: "progressing (config (session ?t)) \<and> selCalls io0 \<le> 1 \<and> noDone world_late (selCalls io0) 1
        \<and> takesDone (selectAt world_late 1)"
    using g by (intro conjI)
  note E3 = E [THEN conjunct2, THEN conjunct2, THEN conjunct2, rule_format, OF h3]
  note E4 = E [THEN conjunct2, THEN conjunct2, THEN conjunct1, rule_format, OF conjI [OF g(2) g(4)]]
  from r c nd2 p2 cl g s n E2 E4 E3 show ?thesis by (intro conjI)
qed

text \<open>
  A cancellation that is signaled stops the run only when a \<^verbatim>\<open>select\<close> takes it. With
  the context cancelled from the start, a run whose phases all have zero duration
  meets no \<^verbatim>\<open>select\<close> and returns \<^verbatim>\<open>nil\<close>; and when the send is ready as well and Go picks
  it, the event is sent after the signal and the run returns \<^verbatim>\<open>nil\<close> too.
\<close>

theorem Run_cancellation_counterexample:
  "signaled (selectAt world_cancelled 0)
   \<and> runError 3 world_cancelled (NewTimerWithClock cfg_zero 1) = Some None
   \<and> signaled (selectAt world_race 0)
   \<and> signaled (selectAt world_race 1)
   \<and> runError 3 world_race (NewTimerWithClock cfg_one 1) = Some None
   \<and> runEvents 3 world_race (NewTimerWithClock cfg_one 1) = Some [ev_one]"
  by code_simp

lemma evAt_bounds:
  "0 \<le>s evRemaining (evAt w s d start k)"
  "evFraction (evAt w s d start k) \<le> 1"
  "evTotal (evAt w s d start k) = d"
  by (simp_all add: evAt_def mkEvent_remaining mkEvent_fraction_le mkEvent_fields)

lemma evAt_elapsed:
  assumes "mono (nowAt w)" and "k0 < k"
  shows "0 \<le>s evElapsed (evAt w s d (nowAt w k0) k)"
proof -
  have "nowAt w k0 \<le> nowAt w k" using assms by (simp add: mono_def)
  then show ?thesis by (simp add: evAt_def mkEvent_fields time_Sub_nonneg)
qed

lemma evAt_fraction:
  assumes "mono (nowAt w)" and "k0 < k" and "rounding (float64 w)" and "0 <s d"
  shows "0 \<le> evFraction (evAt w s d (nowAt w k0) k)"
proof -
  have "nowAt w k0 \<le> nowAt w k" using assms by (simp add: mono_def)
  then have "0 \<le>s time_Sub (nowAt w k) (nowAt w k0)" by (rule time_Sub_nonneg)
  then show ?thesis unfolding evAt_def by (rule mkEvent_fraction_ge [OF assms(3) _ assms(4)])
qed

lemma evAt_ok:
  assumes "k0 < k"
  shows "0 \<le>s evRemaining (evAt w s d (nowAt w k0) k)
       \<and> evFraction (evAt w s d (nowAt w k0) k) \<le> 1
       \<and> (mono (nowAt w) \<longrightarrow> 0 \<le>s evElapsed (evAt w s d (nowAt w k0) k))
       \<and> (mono (nowAt w) \<and> rounding (float64 w) \<and> 0 <s evTotal (evAt w s d (nowAt w k0) k)
            \<longrightarrow> 0 \<le> evFraction (evAt w s d (nowAt w k0) k))"
  using assms by (auto simp add: evAt_bounds intro: evAt_elapsed evAt_fraction)

lemma tickLoop_cancelled_shape:
  "tickLoop n w s d start i = Some (err, i') \<Longrightarrow>
     err \<noteq> None \<longrightarrow>
       (\<exists>pre. added i i' = pre @ [RecvDone]
          \<and> (\<forall>a \<in> set pre. a = RecvTick \<or> (\<exists>e. a = Send e \<and> \<not> evPhaseComplete e)))"
proof (induction rule: tickLoop_result_induct)
  case (CancelSend i)
  then show ?case by simp
next
  case (Complete i)
  then show ?case by simp
next
  case (CancelWait i)
  let ?e = "evAt w s d start (nowCalls i)"
  have "added i (step_io i 2 [Send ?e, RecvDone]) = [Send ?e] @ [RecvDone]" by simp
  moreover have "\<forall>a \<in> set [Send ?e]. a = RecvTick \<or> (\<exists>e. a = Send e \<and> \<not> evPhaseComplete e)"
    using CancelWait(2) by simp
  ultimately show ?case by blast
next
  case (Tick i m)
  let ?e = "evAt w s d start (nowCalls i)"
  let ?i1 = "step_io i 2 [Send ?e, RecvTick]"
  show ?case
  proof
    assume "err \<noteq> None"
    with Tick(5) obtain pre where pre: "added ?i1 i' = pre @ [RecvDone]"
      "\<forall>a \<in> set pre. a = RecvTick \<or> (\<exists>e. a = Send e \<and> \<not> evPhaseComplete e)"
      by blast
    have a: "added i i' = ([Send ?e, RecvTick] @ pre) @ [RecvDone]"
      using added_tick [OF Tick(4)] pre(1) by simp
    have "\<forall>a \<in> set ([Send ?e, RecvTick] @ pre). a = RecvTick \<or> (\<exists>e. a = Send e \<and> \<not> evPhaseComplete e)"
      using pre(2) Tick(2) by simp
    with a show "\<exists>pre. added i i' = pre @ [RecvDone]
          \<and> (\<forall>a \<in> set pre. a = RecvTick \<or> (\<exists>e. a = Send e \<and> \<not> evPhaseComplete e))"
      by blast
  qed
qed

lemma runPhase_cancelled_shape:
  assumes "runPhase n w t i = Some (Some x, i')"
  shows "\<exists>pre. added i i' = TickerNew (tickInterval t) # pre @ [RecvDone, TickerStop]
          \<and> (\<forall>a \<in> set pre. a = RecvTick \<or> (\<exists>e. a = Send e \<and> \<not> evPhaseComplete e))"
  using assms
proof (cases rule: runPhase_cases)
  case Skip
  then show ?thesis by simp
next
  case (Ran i3)
  from tickLoop_cancelled_shape [OF Ran(2)] obtain pre where
    pre: "added (step_io i 0 [TickerNew (tickInterval t)]) i3 = pre @ [RecvDone]"
      "\<forall>a \<in> set pre. a = RecvTick \<or> (\<exists>e. a = Send e \<and> \<not> evPhaseComplete e)"
    by blast
  have "added i i' = TickerNew (tickInterval t) # pre @ [RecvDone, TickerStop]"
    using Ran(4) pre(1) by simp
  with pre(2) show ?thesis by blast
qed

lemma completedPhases_segments:
  "completedPhases w t i t' i' \<Longrightarrow>
     \<exists>segs. trace i' = trace i @ concat segs \<and> (\<forall>seg \<in> set segs. phaseSegment seg)"
proof (induction rule: completedPhases.induct)
  case (here t i)
  have "trace i = trace i @ concat []" by simp
  then show ?case by (intro exI [of _ "[]"]) simp
next
  case (phase t n i i1 t' i')
  from phase.IH obtain segs where segs: "trace i' = trace i1 @ concat segs"
    "\<forall>seg \<in> set segs. phaseSegment seg" by blast
  from runPhase_completed [OF phase.hyps(2)] have
    c: "added i i1 = [] \<or> phaseSegment (added i i1)" by blast
  have t1: "trace i1 = trace i @ added i i1" by (rule runPhase_trace [OF phase.hyps(2)])
  show ?case
  proof (cases "added i i1 = []")
    case True
    with t1 segs show ?thesis by (intro exI [of _ segs]) simp
  next
    case False
    with c have "phaseSegment (added i i1)" by simp
    moreover have "trace i' = trace i @ concat (added i i1 # segs)"
      using segs(1) t1 by simp
    ultimately show ?thesis using segs(2) by (intro exI [of _ "added i i1 # segs"]) simp
  qed
qed

lemma completedPhases_sends:
  "completedPhases w t i t' i' \<Longrightarrow>
     (\<exists>tr. trace i' = trace i @ tr
        \<and> (\<forall>e. Send e \<in> set tr \<longrightarrow> (\<exists>s d k0 k. k0 < k \<and> e = evAt w s d (nowAt w k0) k)))"
proof (induction rule: completedPhases.induct)
  case (here t i)
  show ?case by (intro exI [of _ "[]"]) simp
next
  case (phase t n i i1 t' i')
  from phase.IH obtain tr where tr: "trace i' = trace i1 @ tr"
    "\<forall>e. Send e \<in> set tr \<longrightarrow> (\<exists>s d k0 k. k0 < k \<and> e = evAt w s d (nowAt w k0) k)" by blast
  have t1: "trace i1 = trace i @ added i i1" by (rule runPhase_trace [OF phase.hyps(2)])
  have s1: "\<forall>e. Send e \<in> set (added i i1) \<longrightarrow> (\<exists>s d k0 k. k0 < k \<and> e = evAt w s d (nowAt w k0) k)"
    using runPhase_sends [OF phase.hyps(2)] by blast
  have "trace i' = trace i @ (added i i1 @ tr)" using tr(1) t1 by simp
  moreover have "\<forall>e. Send e \<in> set (added i i1 @ tr) \<longrightarrow>
      (\<exists>s d k0 k. k0 < k \<and> e = evAt w s d (nowAt w k0) k)"
    using s1 tr(2) by auto
  ultimately show ?case by blast
qed

lemma completedPhases_events:
  assumes "completedPhases w t i t' i'"
  shows "(\<exists>segs. added i i' = concat segs \<and> (\<forall>seg \<in> set segs. phaseSegment seg))
       \<and> (\<forall>e. Send e \<in> set (added i i') \<longrightarrow>
            0 \<le>s evRemaining e \<and> evFraction e \<le> 1
            \<and> (mono (nowAt w) \<longrightarrow> 0 \<le>s evElapsed e)
            \<and> (mono (nowAt w) \<and> rounding (float64 w) \<and> 0 <s evTotal e \<longrightarrow> 0 \<le> evFraction e))"
proof
  from completedPhases_segments [OF assms] obtain segs where
    s: "trace i' = trace i @ concat segs" "\<forall>seg \<in> set segs. phaseSegment seg" by blast
  from s(1) have "added i i' = concat segs" by (rule added_eq)
  with s(2) show "\<exists>segs. added i i' = concat segs \<and> (\<forall>seg \<in> set segs. phaseSegment seg)" by blast
next
  from completedPhases_sends [OF assms] obtain tr where tr: "trace i' = trace i @ tr"
    "\<forall>e. Send e \<in> set tr \<longrightarrow> (\<exists>s d k0 k. k0 < k \<and> e = evAt w s d (nowAt w k0) k)" by blast
  from tr(1) have a: "added i i' = tr" by (rule added_eq)
  show "\<forall>e. Send e \<in> set (added i i') \<longrightarrow>
            0 \<le>s evRemaining e \<and> evFraction e \<le> 1
            \<and> (mono (nowAt w) \<longrightarrow> 0 \<le>s evElapsed e)
            \<and> (mono (nowAt w) \<and> rounding (float64 w) \<and> 0 <s evTotal e \<longrightarrow> 0 \<le> evFraction e)"
  proof (intro allI impI)
    fix e assume "Send e \<in> set (added i i')"
    with a tr(2) obtain s d k0 k where k: "k0 < k" and e: "e = evAt w s d (nowAt w k0) k" by blast
    show "0 \<le>s evRemaining e \<and> evFraction e \<le> 1
            \<and> (mono (nowAt w) \<longrightarrow> 0 \<le>s evElapsed e)
            \<and> (mono (nowAt w) \<and> rounding (float64 w) \<and> 0 <s evTotal e \<longrightarrow> 0 \<le> evFraction e)"
      unfolding e by (rule evAt_ok [OF k])
  qed
qed

lemma Run_shape:
  assumes "Run n w t i = Some (err, t', i')"
  shows "\<exists>segs rest. added i i' = concat segs @ rest @ [Close]
          \<and> (\<forall>seg \<in> set segs. phaseSegment seg)
          \<and> (err = None \<longrightarrow> rest = [])
          \<and> (err \<noteq> None \<longrightarrow>
               (\<exists>pre. rest = TickerNew (tickInterval t') # pre @ [RecvDone, TickerStop]
                  \<and> (\<forall>a \<in> set pre. a = RecvTick \<or> (\<exists>e. a = Send e \<and> \<not> evPhaseComplete e))))"
proof -
  from Run_chain [OF assms] obtain i0 where c: "completedPhases w t i t' i0"
    and a: "err = None \<longrightarrow> i' = emit Close i0"
    and b: "\<forall>x. err = Some x \<longrightarrow> (\<exists>m i1. runPhase m w t' i0 = Some (Some x, i1) \<and> i' = emit Close i1)"
    by blast
  from completedPhases_segments [OF c] obtain segs where
    s: "trace i0 = trace i @ concat segs" "\<forall>seg \<in> set segs. phaseSegment seg" by blast
  show ?thesis
  proof (cases err)
    case None
    with a s(1) have "trace i' = trace i @ (concat segs @ [] @ [Close])" by simp
    then have "added i i' = concat segs @ [] @ [Close]" by (rule added_eq)
    with s(2) None show ?thesis by blast
  next
    case (Some x)
    with b obtain m i1 where r: "runPhase m w t' i0 = Some (Some x, i1)" and i': "i' = emit Close i1"
      by blast
    from runPhase_cancelled_shape [OF r] obtain pre where
      pre: "added i0 i1 = TickerNew (tickInterval t') # pre @ [RecvDone, TickerStop]"
        "\<forall>a \<in> set pre. a = RecvTick \<or> (\<exists>e. a = Send e \<and> \<not> evPhaseComplete e)" by blast
    have "trace i1 = trace i0 @ added i0 i1" by (rule runPhase_trace [OF r])
    with s(1) i' pre(1) have "trace i' = trace i @
        (concat segs @ (TickerNew (tickInterval t') # pre @ [RecvDone, TickerStop]) @ [Close])"
      by simp
    then have "added i i' = concat segs @ (TickerNew (tickInterval t') # pre @ [RecvDone, TickerStop]) @ [Close]"
      by (rule added_eq)
    with s(2) pre(2) Some show ?thesis by blast
  qed
qed

lemma tickLoop_completes:
  "(\<forall>k<j. \<not> evPhaseComplete (evAt w s d start (nowCalls i + k))) \<Longrightarrow>
   evPhaseComplete (evAt w s d start (nowCalls i + j)) \<Longrightarrow>
   noDone w (selCalls i) (selCalls i + 2 * j + 1) \<Longrightarrow>
   \<exists>i'. tickLoop (Suc j) w s d start i = Some (None, i')"
proof (induction j arbitrary: i)
  case 0
  then have "\<not> takesDone (selectAt w (selCalls i))" by (simp add: noDone_iff)
  with 0 show ?case by (simp add: tickLoop_Suc)
next
  case (Suc j)
  let ?e = "evAt w s d start (nowCalls i)"
  let ?i1 = "step_io i 2 [Send ?e, RecvTick]"
  from Suc.prems(3) have nd: "\<not> takesDone (selectAt w (selCalls i))"
    "\<not> takesDone (selectAt w (Suc (selCalls i)))"
    and rest: "noDone w (selCalls ?i1) (selCalls ?i1 + 2 * j + 1)"
    by (simp_all add: noDone_iff)
  from Suc.prems(1) have nc: "\<not> evPhaseComplete ?e" by (metis add.right_neutral zero_less_Suc)
  have a: "\<forall>k<j. \<not> evPhaseComplete (evAt w s d start (nowCalls ?i1 + k))"
  proof (intro allI impI)
    fix k assume "k < j"
    then have "Suc k < Suc j" by simp
    with Suc.prems(1) have "\<not> evPhaseComplete (evAt w s d start (nowCalls i + Suc k))" by blast
    then show "\<not> evPhaseComplete (evAt w s d start (nowCalls ?i1 + k))" by simp
  qed
  have b: "evPhaseComplete (evAt w s d start (nowCalls ?i1 + j))" using Suc.prems(2) by simp
  from Suc.IH [OF a b rest] obtain i' where "tickLoop (Suc j) w s d start ?i1 = Some (None, i')" ..
  then have "tickLoop (Suc (Suc j)) w s d start i = Some (None, i')"
    using nd nc by (simp add: tickLoop_Suc [of "Suc j"])
  then show ?case ..
qed

lemma runPhase_completes:
  assumes "PhaseDuration (session t) \<noteq> 0"
    and "\<forall>k<j. \<not> evPhaseComplete (evAt w (session t) (PhaseDuration (session t)) (nowAt w (nowCalls i)) (Suc (nowCalls i + k)))"
    and "evPhaseComplete (evAt w (session t) (PhaseDuration (session t)) (nowAt w (nowCalls i)) (Suc (nowCalls i + j)))"
    and "noDone w (selCalls i) (selCalls i + 2 * j + 1)"
  shows "\<exists>i'. runPhase (Suc j) w t i = Some (None, i') \<and> phaseSegment (added i i')"
proof -
  let ?i2 = "step_io i 0 [TickerNew (tickInterval t)]"
  have a: "\<forall>k<j. \<not> evPhaseComplete (evAt w (session t) (PhaseDuration (session t)) (nowAt w (nowCalls i)) (nowCalls ?i2 + k))"
    using assms(2) by simp
  have b: "evPhaseComplete (evAt w (session t) (PhaseDuration (session t)) (nowAt w (nowCalls i)) (nowCalls ?i2 + j))"
    using assms(3) by simp
  have c: "noDone w (selCalls ?i2) (selCalls ?i2 + 2 * j + 1)" using assms(4) by simp
  from tickLoop_completes [OF a b c] obtain i3 where
    "tickLoop (Suc j) w (session t) (PhaseDuration (session t)) (nowAt w (nowCalls i)) ?i2 = Some (None, i3)" ..
  with assms(1) have r: "runPhase (Suc j) w t i = Some (None, emit TickerStop i3)"
    by (simp add: runPhase_nonzero)
  from runPhase_completed [OF r] assms(1) have "phaseSegment (added i (emit TickerStop i3))" by blast
  with r show ?thesis by blast
qed

text \<open>
  Claim C4, as the code has it. Every event the loop builds has a remaining time
  \<open>\<ge> 0\<close> and a fraction \<open>\<le> 1\<close>; its elapsed time is \<open>\<ge> 0\<close> when the clock was not read
  earlier than at the start of the phase, and its fraction is \<open>\<ge> 0\<close> when moreover the
  duration of the phase is positive and rounding is monotone. So it is for every
  event sent by a phase that returns, by phases that ran to their end, and by a run
  that returns, under a clock whose readings never go backwards. A phase that returns
  \<^verbatim>\<open>nil\<close> was skipped, its duration being zero, or its actions are a segment: the ticker
  is created, events whose completion flag is not set alternate with ticks, and the
  last event, sent right before the ticker is stopped, has the flag set. A phase of
  nonzero duration does return \<^verbatim>\<open>nil\<close> when a reading of the clock reaches its duration
  and no \<^verbatim>\<open>select\<close> before it takes the \<^verbatim>\<open>ctx.Done()\<close> case. The actions of phases that
  ran to their end, in a run that returns or not, bounded or not, are such segments
  one after the other; those of a run that returns are such segments, then, if the
  run returns an error, the cancelled phase, in which no event has the completion
  flag set, then the closing of the stream.
\<close>

theorem event_bounds:
  "(0 \<le>s evRemaining (mkEvent f s d el) \<and> evFraction (mkEvent f s d el) \<le> 1
      \<and> (u \<le> v \<longrightarrow> 0 \<le>s evElapsed (mkEvent f s d (time_Sub v u)))
      \<and> (rounding f \<and> u \<le> v \<and> 0 <s d \<longrightarrow> 0 \<le> evFraction (mkEvent f s d (time_Sub v u))))
   \<and> (runPhase n w t i = Some (err, i1) \<longrightarrow>
        (\<forall>e. Send e \<in> set (added i i1) \<longrightarrow>
            0 \<le>s evRemaining e \<and> evFraction e \<le> 1
            \<and> (mono (nowAt w) \<longrightarrow> 0 \<le>s evElapsed e)
            \<and> (mono (nowAt w) \<and> rounding (float64 w) \<and> 0 <s evTotal e \<longrightarrow> 0 \<le> evFraction e))
        \<and> (err = None \<longrightarrow>
              added i i1 = [] \<and> PhaseDuration (session t) = 0
              \<or> phaseSegment (added i i1) \<and> PhaseDuration (session t) \<noteq> 0))
   \<and> (PhaseDuration (session t) \<noteq> 0
        \<and> (\<forall>k<j. \<not> evPhaseComplete (evAt w (session t) (PhaseDuration (session t))
                       (nowAt w (nowCalls i)) (Suc (nowCalls i + k))))
        \<and> evPhaseComplete (evAt w (session t) (PhaseDuration (session t))
                       (nowAt w (nowCalls i)) (Suc (nowCalls i + j)))
        \<and> noDone w (selCalls i) (selCalls i + 2 * j + 1) \<longrightarrow>
        (\<exists>i'. runPhase (Suc j) w t i = Some (None, i') \<and> phaseSegment (added i i')))
   \<and> (completedPhases w t i t2 i2 \<longrightarrow>
        (\<exists>segs. added i i2 = concat segs \<and> (\<forall>seg \<in> set segs. phaseSegment seg))
        \<and> (\<forall>e. Send e \<in> set (added i i2) \<longrightarrow>
            0 \<le>s evRemaining e \<and> evFraction e \<le> 1
            \<and> (mono (nowAt w) \<longrightarrow> 0 \<le>s evElapsed e)
            \<and> (mono (nowAt w) \<and> rounding (float64 w) \<and> 0 <s evTotal e \<longrightarrow> 0 \<le> evFraction e)))
   \<and> (Run m w t i = Some (rerr, t3, i3) \<longrightarrow>
        (\<forall>e. Send e \<in> set (added i i3) \<longrightarrow>
            0 \<le>s evRemaining e \<and> evFraction e \<le> 1
            \<and> (mono (nowAt w) \<longrightarrow> 0 \<le>s evElapsed e)
            \<and> (mono (nowAt w) \<and> rounding (float64 w) \<and> 0 <s evTotal e \<longrightarrow> 0 \<le> evFraction e))
        \<and> (\<exists>segs rest. added i i3 = concat segs @ rest @ [Close]
              \<and> (\<forall>seg \<in> set segs. phaseSegment seg)
              \<and> (rerr = None \<longrightarrow> rest = [])
              \<and> (rerr \<noteq> None \<longrightarrow>
                   (\<exists>pre. rest = TickerNew (tickInterval t3) # pre @ [RecvDone, TickerStop]
                      \<and> (\<forall>a \<in> set pre. a = RecvTick \<or> (\<exists>e. a = Send e \<and> \<not> evPhaseComplete e))))))"
proof (intro conjI impI)
  show "0 \<le>s evRemaining (mkEvent f s d el)" by (rule mkEvent_remaining)
  show "evFraction (mkEvent f s d el) \<le> 1" by (rule mkEvent_fraction_le)
  show "0 \<le>s evElapsed (mkEvent f s d (time_Sub v u))" if "u \<le> v"
    using that by (simp add: mkEvent_fields time_Sub_nonneg)
  show "0 \<le> evFraction (mkEvent f s d (time_Sub v u))" if "rounding f \<and> u \<le> v \<and> 0 <s d"
    using that by (intro mkEvent_fraction_ge time_Sub_nonneg) simp_all
next
  assume r: "runPhase n w t i = Some (err, i1)"
  show "\<forall>e. Send e \<in> set (added i i1) \<longrightarrow>
            0 \<le>s evRemaining e \<and> evFraction e \<le> 1
            \<and> (mono (nowAt w) \<longrightarrow> 0 \<le>s evElapsed e)
            \<and> (mono (nowAt w) \<and> rounding (float64 w) \<and> 0 <s evTotal e \<longrightarrow> 0 \<le> evFraction e)"
  proof (intro allI impI)
    fix e assume "Send e \<in> set (added i i1)"
    from runPhase_sends [OF r this] obtain k where k: "nowCalls i < k"
      and e: "e = evAt w (session t) (PhaseDuration (session t)) (nowAt w (nowCalls i)) k" by blast
    show "0 \<le>s evRemaining e \<and> evFraction e \<le> 1
            \<and> (mono (nowAt w) \<longrightarrow> 0 \<le>s evElapsed e)
            \<and> (mono (nowAt w) \<and> rounding (float64 w) \<and> 0 <s evTotal e \<longrightarrow> 0 \<le> evFraction e)"
      unfolding e by (rule evAt_ok [OF k])
  qed
  show "added i i1 = [] \<and> PhaseDuration (session t) = 0
              \<or> phaseSegment (added i i1) \<and> PhaseDuration (session t) \<noteq> 0" if "err = None"
    using runPhase_completed [of n w t i i1] r that by blast
next
  assume "PhaseDuration (session t) \<noteq> 0
        \<and> (\<forall>k<j. \<not> evPhaseComplete (evAt w (session t) (PhaseDuration (session t))
                       (nowAt w (nowCalls i)) (Suc (nowCalls i + k))))
        \<and> evPhaseComplete (evAt w (session t) (PhaseDuration (session t))
                       (nowAt w (nowCalls i)) (Suc (nowCalls i + j)))
        \<and> noDone w (selCalls i) (selCalls i + 2 * j + 1)"
  then show "\<exists>i'. runPhase (Suc j) w t i = Some (None, i') \<and> phaseSegment (added i i')"
    by (intro runPhase_completes) blast+
next
  assume c: "completedPhases w t i t2 i2"
  from completedPhases_events [OF c]
  show "\<exists>segs. added i i2 = concat segs \<and> (\<forall>seg \<in> set segs. phaseSegment seg)"
    and "\<forall>e. Send e \<in> set (added i i2) \<longrightarrow>
            0 \<le>s evRemaining e \<and> evFraction e \<le> 1
            \<and> (mono (nowAt w) \<longrightarrow> 0 \<le>s evElapsed e)
            \<and> (mono (nowAt w) \<and> rounding (float64 w) \<and> 0 <s evTotal e \<longrightarrow> 0 \<le> evFraction e)"
    by blast+
next
  assume r: "Run m w t i = Some (rerr, t3, i3)"
  from r show "\<forall>e. Send e \<in> set (added i i3) \<longrightarrow>
            0 \<le>s evRemaining e \<and> evFraction e \<le> 1
            \<and> (mono (nowAt w) \<longrightarrow> 0 \<le>s evElapsed e)
            \<and> (mono (nowAt w) \<and> rounding (float64 w) \<and> 0 <s evTotal e \<longrightarrow> 0 \<le> evFraction e)"
  proof (cases rule: Run_cases)
    case (1 i0)
    show ?thesis
    proof (intro allI impI)
      fix e assume "Send e \<in> set (added i i3)"
      then have "Send e \<in> set (added i i0)" using 1(3) by simp
      with runLoop_sends [OF 1(1)] obtain j k0 k where k: "k0 < k"
        and e: "e = evAt w (nthSession j (session t)) (PhaseDuration (nthSession j (session t))) (nowAt w k0) k"
        by blast
      show "0 \<le>s evRemaining e \<and> evFraction e \<le> 1
            \<and> (mono (nowAt w) \<longrightarrow> 0 \<le>s evElapsed e)
            \<and> (mono (nowAt w) \<and> rounding (float64 w) \<and> 0 <s evTotal e \<longrightarrow> 0 \<le> evFraction e)"
        unfolding e by (rule evAt_ok [OF k])
    qed
  qed
  show "\<exists>segs rest. added i i3 = concat segs @ rest @ [Close]
              \<and> (\<forall>seg \<in> set segs. phaseSegment seg)
              \<and> (rerr = None \<longrightarrow> rest = [])
              \<and> (rerr \<noteq> None \<longrightarrow>
                   (\<exists>pre. rest = TickerNew (tickInterval t3) # pre @ [RecvDone, TickerStop]
                      \<and> (\<forall>a \<in> set pre. a = RecvTick \<or> (\<exists>e. a = Send e \<and> \<not> evPhaseComplete e))))"
    by (rule Run_shape [OF r])
qed

lemma mono_world_ok: "mono (nowAt world_ok)"
  by (simp add: world_ok_def mono_def)

lemma rounding_world_ok: "rounding (float64 world_ok)"
  by (simp add: world_ok_def rounding_def mono_def)

lemma mono_world_late: "mono (nowAt world_late)"
  by (simp add: world_late_def mono_def)

lemma rounding_world_late: "rounding (float64 world_late)"
  by (simp add: world_late_def rounding_def mono_def)

text \<open>
  A run without a bound on its cycles whose context is cancelled after the first
  phase: the work phase of one nanosecond completes with its only event, and the break
  is cancelled at its first \<^verbatim>\<open>select\<close>.
\<close>

theorem event_bounds_witness:
  "Run 3 world_late (NewTimerWithClock cfg_forever 1) io0 =
     Some (Some Canceled, advanceSession (NewTimerWithClock cfg_forever 1), io_late)
   \<and> runPhase 1 world_late (NewTimerWithClock cfg_forever 1) io0 = Some (None, io_forever)
   \<and> completedPhases world_late (NewTimerWithClock cfg_forever 1) io0
        (advanceSession (NewTimerWithClock cfg_forever 1)) io_forever
   \<and> PhaseDuration (session (NewTimerWithClock cfg_forever 1)) \<noteq> 0
   \<and> evPhaseComplete (evAt world_late (session (NewTimerWithClock cfg_forever 1)) 1 0 1)
   \<and> noDone world_late 0 1
   \<and> mono (nowAt world_late) \<and> rounding (float64 world_late) \<and> 0 <s evTotal ev_forever
   \<and> Send ev_forever \<in> set (added io0 io_forever)
   \<and> 0 \<le>s evRemaining ev_forever \<and> 0 \<le>s evElapsed ev_forever
   \<and> 0 \<le> evFraction ev_forever \<and> evFraction ev_forever \<le> 1
   \<and> phaseSegment (added io0 io_forever)
   \<and> (\<exists>i'. runPhase (Suc 0) world_late (NewTimerWithClock cfg_forever 1) io0 = Some (None, i')
         \<and> phaseSegment (added io0 i'))
   \<and> (\<exists>segs. added io0 io_forever = concat segs \<and> (\<forall>seg \<in> set segs. phaseSegment seg))
   \<and> (\<exists>segs rest. added io0 io_late = concat segs @ rest @ [Close]
         \<and> (\<forall>seg \<in> set segs. phaseSegment seg) \<and> rest \<noteq> [])"
proof -
  let ?t = "NewTimerWithClock cfg_forever 1"
  have r: "Run 3 world_late ?t io0 = Some (Some Canceled, advanceSession ?t, io_late)"
    by code_simp
  have p: "runPhase 1 world_late ?t io0 = Some (None, io_forever)" by code_simp
  have nd: "CurrentPhase (session ?t) \<noteq> PhaseDone" by code_simp
  have c: "completedPhases world_late ?t io0 (advanceSession ?t) io_forever"
    by (rule completedPhases.phase [OF nd p completedPhases.here])
  have d: "PhaseDuration (session ?t) \<noteq> 0" by code_simp
  have d1: "PhaseDuration (session ?t) = 1" by code_simp
  have n0: "nowAt world_late 0 = 0" "nowCalls io0 = 0" "selCalls io0 = 0"
    by (simp_all add: world_late_def io0_def)
  have k: "evPhaseComplete (evAt world_late (session ?t) 1 0 1)"
    by (simp add: evAt_def mkEvent_fields world_late_def time_Sub_def word_sle_eq)
  have n: "noDone world_late 0 1" by code_simp
  have s: "Send ev_forever \<in> set (added io0 io_forever)"
    by (simp add: added_def io0_def io_forever_def)
  have tot: "0 <s evTotal ev_forever" by (simp add: ev_forever_def word_sless_alt)
  note E = event_bounds [where w = world_late and t = ?t and i = io0 and n = 1 and err = None
      and ?i1.0 = io_forever and j = 0 and ?t2.0 = "advanceSession ?t" and ?i2.0 = io_forever
      and m = 3 and rerr = "Some Canceled" and ?t3.0 = "advanceSession ?t" and ?i3.0 = io_late]
  note E2 = E [THEN conjunct2, THEN conjunct1, rule_format, OF p]
  note E5 = E [THEN conjunct2, THEN conjunct2, THEN conjunct2, THEN conjunct2, rule_format, OF r]
  from E2 [THEN conjunct1, rule_format, OF s]
  have b: "0 \<le>s evRemaining ev_forever" "0 \<le>s evElapsed ev_forever"
    "0 \<le> evFraction ev_forever" "evFraction ev_forever \<le> 1"
    using mono_world_late rounding_world_late tot by blast+
  from E2 [THEN conjunct2] d have seg: "phaseSegment (added io0 io_forever)" by blast
  from E5 [THEN conjunct2] obtain segs rest where
    sh1: "added io0 io_late = concat segs @ rest @ [Close]" "\<forall>seg \<in> set segs. phaseSegment seg"
    and sh2: "Some Canceled \<noteq> None \<longrightarrow>
       (\<exists>pre. rest = TickerNew (tickInterval (advanceSession ?t)) # pre @ [RecvDone, TickerStop]
          \<and> (\<forall>a \<in> set pre. a = RecvTick \<or> (\<exists>e. a = Send e \<and> \<not> evPhaseComplete e)))"
    by blast
  from sh2 have "rest \<noteq> []" by auto
  with sh1 have sh: "\<exists>segs rest. added io0 io_late = concat segs @ rest @ [Close]
         \<and> (\<forall>seg \<in> set segs. phaseSegment seg) \<and> rest \<noteq> []"
    by blast
  have h3: "PhaseDuration (session ?t) \<noteq> 0
        \<and> (\<forall>k<0. \<not> evPhaseComplete (evAt world_late (session ?t) (PhaseDuration (session ?t))
                       (nowAt world_late (nowCalls io0)) (Suc (nowCalls io0 + k))))
        \<and> evPhaseComplete (evAt world_late (session ?t) (PhaseDuration (session ?t))
                       (nowAt world_late (nowCalls io0)) (Suc (nowCalls io0 + 0)))
        \<and> noDone world_late (selCalls io0) (selCalls io0 + 2 * 0 + 1)"
    using d k n by (simp add: d1 n0)
  note E3 = E [THEN conjunct2, THEN conjunct2, THEN conjunct1, rule_format, OF h3]
  note E4 = E [THEN conjunct2, THEN conjunct2, THEN conjunct2, THEN conjunct1, rule_format, OF c]
  note e4 = E4 [THEN conjunct1]
  from r p c d k n mono_world_late rounding_world_late tot s b seg E3 e4 sh show ?thesis
    by (intro conjI)
qed

text \<open>
  A negative work duration (\<^verbatim>\<open>pomo start -p\<close> with a negative number) under a clock that
  advances: the only event of the phase has the fraction \<open>- 1\<close>.
\<close>

theorem event_fraction_counterexample:
  "mono (nowAt world_ok) \<and> rounding (float64 world_ok)
   \<and> map_option (map evFraction) (runEvents 3 world_ok (NewTimerWithClock cfg_neg 1)) = Some [- 1]
   \<and> \<not> (0 :: real) \<le> - 1"
proof -
  have "map_option (map evFraction) (runEvents 3 world_ok (NewTimerWithClock cfg_neg 1)) = Some [- 1]"
    by code_simp
  then show ?thesis using mono_world_ok rounding_world_ok by simp
qed

lemma NextPhase_phasesComplete:
  "currentPhase s \<noteq> PhaseDone \<Longrightarrow> phasesComplete (snd (NextPhase s)) = phasesComplete s + 1"
  by (cases "currentPhase s") (simp_all add: NextPhase_Work NextPhase_Break Let_def)

text \<open>
  Claim C5. When the duration of the current phase is zero, \<^verbatim>\<open>runPhase\<close> returns \<^verbatim>\<open>nil\<close>
  at once: it reads no clock, resolves no \<^verbatim>\<open>select\<close> and sends no event. \<^verbatim>\<open>Run\<close> then calls
  \<^verbatim>\<open>NextPhase\<close>, so the phase counts as completed, and a work phase as a completed cycle.
\<close>

theorem zero_duration_phase_skipped:
  "PhaseDuration (session t) = 0 \<and> CurrentPhase (session t) \<noteq> PhaseDone \<longrightarrow>
     runPhase n w t i = Some (None, i)
     \<and> runLoop (Suc n) w t i = runLoop n w (t\<lparr>session := snd (NextPhase (session t))\<rparr>) i
     \<and> PhasesComplete (snd (NextPhase (session t))) = PhasesComplete (session t) + 1
     \<and> (CurrentPhase (session t) = PhaseWork \<longrightarrow>
          CyclesComplete (snd (NextPhase (session t))) = CyclesComplete (session t) + 1)"
proof
  assume h: "PhaseDuration (session t) = 0 \<and> CurrentPhase (session t) \<noteq> PhaseDone"
  then have r: "runPhase n w t i = Some (None, i)" by (simp add: runPhase_zero)
  have l: "runLoop (Suc n) w t i = runLoop n w (t\<lparr>session := snd (NextPhase (session t))\<rparr>) i"
    using h r by (simp add: runLoop.simps(2))
  have p: "PhasesComplete (snd (NextPhase (session t))) = PhasesComplete (session t) + 1"
    using h by (simp add: PhasesComplete_def CurrentPhase_def NextPhase_phasesComplete)
  have c: "CurrentPhase (session t) = PhaseWork \<longrightarrow>
          CyclesComplete (snd (NextPhase (session t))) = CyclesComplete (session t) + 1"
    by (simp add: CyclesComplete_def CurrentPhase_def NextPhase_Work Let_def)
  from r l p c show "runPhase n w t i = Some (None, i)
     \<and> runLoop (Suc n) w t i = runLoop n w (t\<lparr>session := snd (NextPhase (session t))\<rparr>) i
     \<and> PhasesComplete (snd (NextPhase (session t))) = PhasesComplete (session t) + 1
     \<and> (CurrentPhase (session t) = PhaseWork \<longrightarrow>
          CyclesComplete (snd (NextPhase (session t))) = CyclesComplete (session t) + 1)" by blast
qed

text \<open>
  The scenario of the specification: three cycles with short breaks of zero duration.
  The events are those of the three work phases, numbered 1, 3 and 5.
\<close>

theorem zero_duration_phase_skipped_witness:
  "PhaseDuration (session timer_short0) = 0
   \<and> CurrentPhase (session timer_short0) = PhaseShortBreak
   \<and> runPhase 5 world_ok timer_short0 io0 = Some (None, io0)
   \<and> PhasesComplete (snd (NextPhase (session timer_short0))) = 2
   \<and> map_option (map evPhase) (runEvents 8 world_ok (NewTimerWithClock cfg_short0 1))
        = Some [PhaseWork, PhaseWork, PhaseWork]
   \<and> map_option (map evPhaseNum) (runEvents 8 world_ok (NewTimerWithClock cfg_short0 1))
        = Some [1, 3, 5]"
proof -
  have d: "PhaseDuration (session timer_short0) = 0 \<and> CurrentPhase (session timer_short0) \<noteq> PhaseDone"
    by (simp add: timer_short0_def PhaseDuration_def CurrentPhase_def cfg_short0_def)
  have c: "CurrentPhase (session timer_short0) = PhaseShortBreak"
    by (simp add: timer_short0_def CurrentPhase_def)
  have p: "PhasesComplete (session timer_short0) + 1 = 2"
    by (simp add: timer_short0_def PhasesComplete_def)
  have e: "map_option (map evPhase) (runEvents 8 world_ok (NewTimerWithClock cfg_short0 1))
        = Some [PhaseWork, PhaseWork, PhaseWork]"
    "map_option (map evPhaseNum) (runEvents 8 world_ok (NewTimerWithClock cfg_short0 1))
        = Some [1, 3, 5]"
    by code_simp+
  show ?thesis
    using zero_duration_phase_skipped [of timer_short0 5 world_ok io0] d c p e by simp
qed



subsection \<open>Scenarios of the specification\<close>

text \<open>
  Two cycles without long breaks run as work, short break, work, and end in success;
  four cycles with a long break every second one have seven phases, the break after
  the second cycle being the long one.
\<close>

lemma scenario_two_cycles:
  "runError 8 world_ok (NewTimerWithClock cfg_two 1) = Some None
   \<and> map_option (map evPhase) (runEvents 8 world_ok (NewTimerWithClock cfg_two 1))
        = Some [PhaseWork, PhaseShortBreak, PhaseWork]
   \<and> map_option (map evPhaseNum) (runEvents 8 world_ok (NewTimerWithClock cfg_two 1))
        = Some [1, 2, 3]
   \<and> TotalPhases (session (NewTimerWithClock cfg_two 1)) = 3"
  by code_simp

lemma scenario_long_breaks:
  "TotalPhases (NewSession cfg42) = 7
   \<and> map (\<lambda>j. currentPhase (nthSession j (NewSession cfg42))) [0, 1, 2, 3, 4, 5, 6, 7]
       = [PhaseWork, PhaseShortBreak, PhaseWork, PhaseLongBreak, PhaseWork, PhaseShortBreak,
          PhaseWork, PhaseDone]"
  by code_simp

section \<open>Properties of the mock clock\<close>

subsection \<open>The scan for the earliest ticker\<close>

lemma advanceLoop_unfold:
  "advanceLoop target m fired =
     (if current m < target then
        case scanEarliest (tickers m) 0 None of
          None \<Rightarrow> Some (m\<lparr>current := target\<rparr>, fired)
        | Some (i, e) \<Rightarrow>
            if target < nextTick e then Some (m\<lparr>current := target\<rparr>, fired)
            else advanceLoop target (stepClock m i e) (fired @ [(i, nextTick e)])
      else Some (m, fired))"
  by (subst advanceLoop.simps) (simp add: Let_def stepClock_def fireTicker_def split: option.splits)

lemma scanEarliest_Cons: "scanEarliest (t # ts) i acc = scanEarliest ts (Suc i) (pick i t acc)"
  by (simp add: pick_def split: option.splits)

declare scanEarliest.simps(2) [simp del]

lemma pick_None: "pick i t acc = None \<longleftrightarrow> acc = None \<and> stopped t"
  by (simp add: pick_def split: option.splits)

lemma pick_Some:
  "pick i t acc = Some (j, e) \<Longrightarrow>
     (acc = Some (j, e) \<or> (j = i \<and> e = t \<and> \<not> stopped t))
     \<and> (\<not> stopped t \<longrightarrow> nextTick e \<le> nextTick t)
     \<and> (\<forall>j' e'. acc = Some (j', e') \<longrightarrow> nextTick e \<le> nextTick e')"
  by (auto simp add: pick_def split: option.splits if_splits)

lemma scanEarliest_None:
  "scanEarliest ts i acc = None \<longleftrightarrow> acc = None \<and> (\<forall>t \<in> set ts. stopped t)"
  by (induction ts arbitrary: i acc) (auto simp add: scanEarliest_Cons pick_None)

lemma scanEarliest_Some:
  "scanEarliest ts i acc = Some (j, e) \<Longrightarrow>
     acc = Some (j, e) \<or> (i \<le> j \<and> j < i + length ts \<and> ts ! (j - i) = e \<and> \<not> stopped e)"
proof (induction ts arbitrary: i acc)
  case Nil
  then show ?case by simp
next
  case (Cons t ts)
  from Cons.prems have "scanEarliest ts (Suc i) (pick i t acc) = Some (j, e)"
    by (simp add: scanEarliest_Cons)
  from Cons.IH [OF this] show ?case
  proof
    assume "pick i t acc = Some (j, e)"
    from pick_Some [OF this] show ?thesis by auto
  next
    assume "Suc i \<le> j \<and> j < Suc i + length ts \<and> ts ! (j - Suc i) = e \<and> \<not> stopped e"
    then show ?thesis by (auto simp add: nth_Cons' Suc_diff_le)
  qed
qed

lemma scanEarliest_min:
  "scanEarliest ts i acc = Some (j, e) \<Longrightarrow>
     (\<forall>t \<in> set ts. \<not> stopped t \<longrightarrow> nextTick e \<le> nextTick t)
     \<and> (\<forall>j' e'. acc = Some (j', e') \<longrightarrow> nextTick e \<le> nextTick e')"
proof (induction ts arbitrary: i acc)
  case Nil
  then show ?case by simp
next
  case (Cons t ts)
  from Cons.prems have r: "scanEarliest ts (Suc i) (pick i t acc) = Some (j, e)"
    by (simp add: scanEarliest_Cons)
  note ih = Cons.IH [OF r]
  show ?case
  proof (cases "pick i t acc")
    case None
    then have "acc = None" "stopped t" by (simp_all add: pick_None)
    with ih show ?thesis by simp
  next
    case (Some p)
    obtain j0 e0 where p: "pick i t acc = Some (j0, e0)" using Some by (cases p) simp
    from ih p have le: "nextTick e \<le> nextTick e0" by blast
    from pick_Some [OF p] have "\<not> stopped t \<longrightarrow> nextTick e0 \<le> nextTick t"
      "\<forall>j' e'. acc = Some (j', e') \<longrightarrow> nextTick e0 \<le> nextTick e'" by blast+
    with le ih show ?thesis by fastforce
  qed
qed

lemma scanEarliest_top:
  assumes "scanEarliest ts 0 None = Some (j, e)"
  shows "j < length ts" "ts ! j = e" "\<not> stopped e" "\<forall>t \<in> set ts. \<not> stopped t \<longrightarrow> nextTick e \<le> nextTick t"
  using scanEarliest_Some [OF assms] scanEarliest_min [OF assms] by simp_all

lemma scanEarliest_strict:
  "scanEarliest ts i (Some (j0, e0)) = Some (j, e) \<Longrightarrow> j0 < i \<Longrightarrow> j \<noteq> j0 \<Longrightarrow>
     nextTick e < nextTick e0"
proof (induction ts arbitrary: i j0 e0)
  case Nil
  then show ?case by simp
next
  case (Cons t ts)
  from Cons.prems(1) have r: "scanEarliest ts (Suc i) (pick i t (Some (j0, e0))) = Some (j, e)"
    by (simp add: scanEarliest_Cons)
  show ?case
  proof (cases "\<not> stopped t \<and> nextTick t < nextTick e0")
    case True
    then have "pick i t (Some (j0, e0)) = Some (i, t)" by (simp add: pick_def)
    with r have "scanEarliest ts (Suc i) (Some (i, t)) = Some (j, e)" by simp
    from scanEarliest_min [OF this] have "nextTick e \<le> nextTick t" by blast
    with True show ?thesis by simp
  next
    case False
    then have "pick i t (Some (j0, e0)) = Some (j0, e0)" by (auto simp add: pick_def)
    with r have "scanEarliest ts (Suc i) (Some (j0, e0)) = Some (j, e)" by simp
    from Cons.IH [OF this] Cons.prems(2,3) show ?thesis by simp
  qed
qed

lemma scanEarliest_before:
  "scanEarliest ts i acc = Some (j, e) \<Longrightarrow> (\<forall>j' e'. acc = Some (j', e') \<longrightarrow> j' < i) \<Longrightarrow>
     \<forall>k. i \<le> k \<and> k < j \<longrightarrow> \<not> stopped (ts ! (k - i)) \<longrightarrow> nextTick e < nextTick (ts ! (k - i))"
proof (induction ts arbitrary: i acc)
  case Nil
  from Nil.prems have "j < i" by simp
  then show ?case by simp
next
  case (Cons t ts)
  from Cons.prems(1) have r: "scanEarliest ts (Suc i) (pick i t acc) = Some (j, e)"
    by (simp add: scanEarliest_Cons)
  have pre: "\<forall>j' e'. pick i t acc = Some (j', e') \<longrightarrow> j' < Suc i"
  proof (intro allI impI)
    fix j' e' assume "pick i t acc = Some (j', e')"
    from pick_Some [OF this] Cons.prems(2) show "j' < Suc i" by (auto simp add: less_Suc_eq)
  qed
  note ih = Cons.IH [OF r pre]
  show ?case
  proof (intro allI impI)
    fix k assume k: "i \<le> k \<and> k < j" and ns: "\<not> stopped ((t # ts) ! (k - i))"
    show "nextTick e < nextTick ((t # ts) ! (k - i))"
    proof (cases "k = i")
      case True
      with ns have nst: "\<not> stopped t" by simp
      then obtain j1 e1 where p: "pick i t acc = Some (j1, e1)"
        using pick_None [of i t acc] by (cases "pick i t acc") auto
      from pre p have j1: "j1 < Suc i" by blast
      with k have ne: "j \<noteq> j1" by simp
      from r p have "scanEarliest ts (Suc i) (Some (j1, e1)) = Some (j, e)" by simp
      from scanEarliest_strict [OF this j1 ne] have "nextTick e < nextTick e1" .
      moreover from pick_Some [OF p] nst have "nextTick e1 \<le> nextTick t" by blast
      ultimately show ?thesis using True by simp
    next
      case False
      with k have k': "Suc i \<le> k \<and> k < j" by simp
      then have eq: "(t # ts) ! (k - i) = ts ! (k - Suc i)" by (simp add: nth_Cons' Suc_diff_le)
      with ns ih k' show ?thesis by simp
    qed
  qed
qed

lemma scanEarliest_first:
  assumes "scanEarliest ts 0 None = Some (j, e)"
  shows "\<forall>k<j. \<not> stopped (ts ! k) \<longrightarrow> nextTick e < nextTick (ts ! k)"
  using scanEarliest_before [OF assms] by simp

subsection \<open>Termination of the loop\<close>

lemma sum_list_update_less:
  fixes f :: "'a \<Rightarrow> nat"
  shows "i < length xs \<Longrightarrow> f y < f (xs ! i) \<Longrightarrow> sum_list (map f (xs[i := y])) < sum_list (map f xs)"
proof (induction xs arbitrary: i)
  case Nil
  then show ?case by simp
next
  case (Cons x xs)
  then show ?case by (cases i) auto
qed

lemma sint_pos: "0 <s (d :: Duration) \<longleftrightarrow> 0 < sint d"
  by (simp add: word_sless_alt)

lemma fireTicker_simps [simp]:
  "interval (fireTicker e) = interval e"
  "stopped (fireTicker e) = stopped e"
  "nextTick (fireTicker e) = nextTick e + sint (interval e)"
  "ch (fireTicker e) = trySend (ch e) (nextTick e)"
  by (simp_all add: fireTicker_def time_Add_def)

lemma stepClock_simps [simp]:
  "current (stepClock m i e) = nextTick e"
  "tickers (stepClock m i e) = (tickers m)[i := fireTicker e]"
  by (simp_all add: stepClock_def)

lemma due_fire:
  assumes "\<not> stopped e" "nextTick e \<le> target" "0 <s interval e"
  shows "due target (fireTicker e) < due target e"
  using assms by (auto simp add: due_def sint_pos)

lemma posIntervals_step:
  assumes "posIntervals m" "scanEarliest (tickers m) 0 None = Some (i, e)"
  shows "posIntervals (stepClock m i e)"
proof -
  from scanEarliest_top [OF assms(2)] have e: "i < length (tickers m)" "tickers m ! i = e" by simp_all
  then have "e \<in> set (tickers m)" by (metis nth_mem)
  with assms(1) have "\<not> stopped e \<longrightarrow> 0 <s interval e" by (simp add: posIntervals_def)
  moreover have "set ((tickers m)[i := fireTicker e]) \<subseteq> insert (fireTicker e) (set (tickers m))"
    by (rule set_update_subset_insert)
  ultimately show ?thesis using assms(1) by (auto simp add: posIntervals_def)
qed

lemma pendingFirings_step:
  assumes "posIntervals m" "scanEarliest (tickers m) 0 None = Some (i, e)" "nextTick e \<le> target"
  shows "pendingFirings target (stepClock m i e) < pendingFirings target m"
proof -
  from scanEarliest_top [OF assms(2)] have e: "i < length (tickers m)" "tickers m ! i = e" "\<not> stopped e"
    by simp_all
  then have "e \<in> set (tickers m)" by (metis nth_mem)
  with assms(1) e(3) have "0 <s interval e" by (simp add: posIntervals_def)
  from due_fire [OF e(3) assms(3) this] e(1,2) show ?thesis
    unfolding pendingFirings_def stepClock_simps by (intro sum_list_update_less) simp_all
qed

lemma advanceLoop_total [consumes 1, case_names Stay Jump Fire]:
  assumes pos: "posIntervals m"
    and stay: "\<And>m fired. posIntervals m \<Longrightarrow> \<not> current m < target \<Longrightarrow> P m fired (m, fired)"
    and jump: "\<And>m fired. posIntervals m \<Longrightarrow> current m < target \<Longrightarrow>
                 (\<forall>t \<in> set (tickers m). \<not> stopped t \<longrightarrow> target < nextTick t) \<Longrightarrow>
                 P m fired (m\<lparr>current := target\<rparr>, fired)"
    and fire: "\<And>m fired i e r. posIntervals m \<Longrightarrow> current m < target \<Longrightarrow>
                 scanEarliest (tickers m) 0 None = Some (i, e) \<Longrightarrow> nextTick e \<le> target \<Longrightarrow>
                 advanceLoop target (stepClock m i e) (fired @ [(i, nextTick e)]) = Some r \<Longrightarrow>
                 P (stepClock m i e) (fired @ [(i, nextTick e)]) r \<Longrightarrow> P m fired r"
  shows "\<exists>r. advanceLoop target m fired = Some r \<and> P m fired r"
  using pos
proof (induction "pendingFirings target m" arbitrary: m fired rule: less_induct)
  case less
  show ?case
  proof (cases "current m < target")
    case False
    with stay [OF less.prems False, of fired] show ?thesis by (subst advanceLoop_unfold) simp
  next
    case lt: True
    show ?thesis
    proof (cases "scanEarliest (tickers m) 0 None")
      case None
      then have "\<forall>t \<in> set (tickers m). \<not> stopped t \<longrightarrow> target < nextTick t"
        by (simp add: scanEarliest_None)
      from jump [OF less.prems lt this, of fired] None lt show ?thesis
        by (subst advanceLoop_unfold) simp
    next
      case (Some p)
      obtain i e where s: "scanEarliest (tickers m) 0 None = Some (i, e)" using Some by (cases p) simp
      show ?thesis
      proof (cases "target < nextTick e")
        case True
        with scanEarliest_top(4) [OF s]
        have "\<forall>t \<in> set (tickers m). \<not> stopped t \<longrightarrow> target < nextTick t" by fastforce
        from jump [OF less.prems lt this, of fired] s lt True show ?thesis
          by (subst advanceLoop_unfold) simp
      next
        case False
        then have le: "nextTick e \<le> target" by simp
        have d: "pendingFirings target (stepClock m i e) < pendingFirings target m"
          by (rule pendingFirings_step [OF less.prems s le])
        have p: "posIntervals (stepClock m i e)" by (rule posIntervals_step [OF less.prems s])
        from less.hyps [OF d p, of "fired @ [(i, nextTick e)]"] obtain r where
          r: "advanceLoop target (stepClock m i e) (fired @ [(i, nextTick e)]) = Some r"
          and pr: "P (stepClock m i e) (fired @ [(i, nextTick e)]) r" by blast
        have "P m fired r" by (rule fire [OF less.prems lt s le r pr])
        moreover have "advanceLoop target m fired = Some r"
          using r s lt False by (subst advanceLoop_unfold) simp
        ultimately show ?thesis by blast
      qed
    qed
  qed
qed

subsection \<open>What the loop does\<close>

lemma advanceLoop_new [consumes 1, case_names Stay Jump Fire]:
  assumes pos: "posIntervals m"
    and stay: "\<And>m. posIntervals m \<Longrightarrow> \<not> current m < target \<Longrightarrow> Q m [] m"
    and jump: "\<And>m. posIntervals m \<Longrightarrow> current m < target \<Longrightarrow>
                 (\<forall>t \<in> set (tickers m). \<not> stopped t \<longrightarrow> target < nextTick t) \<Longrightarrow>
                 Q m [] (m\<lparr>current := target\<rparr>)"
    and fire: "\<And>m i e new m'. posIntervals m \<Longrightarrow> current m < target \<Longrightarrow>
                 scanEarliest (tickers m) 0 None = Some (i, e) \<Longrightarrow> nextTick e \<le> target \<Longrightarrow>
                 Q (stepClock m i e) new m' \<Longrightarrow> Q m ((i, nextTick e) # new) m'"
  shows "\<exists>m' new. advanceLoop target m fired = Some (m', fired @ new) \<and> Q m new m'"
proof -
  have "\<exists>r. advanceLoop target m fired = Some r
          \<and> (\<exists>new. snd r = fired @ new \<and> Q m new (fst r))"
    using pos
  proof (induction rule: advanceLoop_total)
    case (Stay m fired)
    then show ?case using stay by simp
  next
    case (Jump m fired)
    then show ?case using jump by simp
  next
    case (Fire m fired i e r)
    from Fire(6) obtain new where n: "snd r = (fired @ [(i, nextTick e)]) @ new"
      and q: "Q (stepClock m i e) new (fst r)" by blast
    have "Q m ((i, nextTick e) # new) (fst r)" by (rule fire [OF Fire(1-4) q])
    with n show ?case by (intro exI [of _ "(i, nextTick e) # new"]) simp
  qed
  then obtain r new where "advanceLoop target m fired = Some r" "snd r = fired @ new" "Q m new (fst r)"
    by blast
  then show ?thesis by (intro exI [of _ "fst r"] exI [of _ new]) (cases r, simp)
qed

lemma advanceLoop_count:
  assumes "posIntervals m"
  shows "\<exists>m' new. advanceLoop target m fired = Some (m', fired @ new)
           \<and> length new \<le> pendingFirings target m"
  using assms
proof (induction rule: advanceLoop_new)
  case (Fire m i e new m')
  then show ?case using pendingFirings_step [OF Fire(1,3,4)] by simp
qed simp_all





lemma stepClock_later:
  assumes pos: "posIntervals m" and sc: "scanEarliest (tickers m) 0 None = Some (i, e)"
    and j: "j < length (tickers m)" and ns: "\<not> stopped (tickers (stepClock m i e) ! j)"
  shows "nextTick e < nextTick (tickers (stepClock m i e) ! j)
       \<or> nextTick e = nextTick (tickers (stepClock m i e) ! j) \<and> Suc i \<le> j"
proof -
  from scanEarliest_top [OF sc] have e: "i < length (tickers m)" "tickers m ! i = e" "\<not> stopped e"
    and mn: "\<forall>t \<in> set (tickers m). \<not> stopped t \<longrightarrow> nextTick e \<le> nextTick t" by simp_all
  from e have "e \<in> set (tickers m)" by (metis nth_mem)
  with pos e(3) have p: "0 < sint (interval e)" by (simp add: posIntervals_def sint_pos)
  show ?thesis
  proof (cases "j = i")
    case True
    with e(1) p show ?thesis by simp
  next
    case False
    then have eq: "tickers (stepClock m i e) ! j = tickers m ! j" by simp
    with ns have ns': "\<not> stopped (tickers m ! j)" by simp
    show ?thesis
    proof (cases "j < i")
      case True
      with scanEarliest_first [OF sc] ns' eq show ?thesis by simp
    next
      case False
      with \<open>j \<noteq> i\<close> have "Suc i \<le> j" by simp
      moreover from j have "tickers m ! j \<in> set (tickers m)" by simp
      with mn ns' have "nextTick e \<le> nextTick (tickers m ! j)" by blast
      ultimately show ?thesis using eq by (simp add: less_le)
    qed
  qed
qed

lemma advanceLoop_order:
  assumes "posIntervals m"
  shows "\<exists>m' new. advanceLoop target m fired = Some (m', fired @ new)
           \<and> (length (tickers m') = length (tickers m)
              \<and> sorted_wrt (\<lambda>p q. snd p < snd q \<or> snd p = snd q \<and> fst p < fst q) new
              \<and> (\<forall>b k. (\<forall>j<length (tickers m). \<not> stopped (tickers m ! j) \<longrightarrow>
                           b < nextTick (tickers m ! j) \<or> b = nextTick (tickers m ! j) \<and> k \<le> j)
                    \<longrightarrow> (\<forall>p \<in> set new. b < snd p \<or> b = snd p \<and> k \<le> fst p)))"
  using assms
proof (induction rule: advanceLoop_new)
  case (Stay m)
  then show ?case by simp
next
  case (Jump m)
  then show ?case by simp
next
  case (Fire m i e new m')
  let ?m1 = "stepClock m i e"
  from scanEarliest_top [OF Fire(3)] have e: "i < length (tickers m)" "tickers m ! i = e" "\<not> stopped e"
    by simp_all
  have len: "length (tickers ?m1) = length (tickers m)" by simp
  from Fire(5) have l: "length (tickers m') = length (tickers ?m1)"
    and s: "sorted_wrt (\<lambda>p q. snd p < snd q \<or> snd p = snd q \<and> fst p < fst q) new"
    and bd: "\<forall>b k. (\<forall>j<length (tickers ?m1). \<not> stopped (tickers ?m1 ! j) \<longrightarrow>
                           b < nextTick (tickers ?m1 ! j) \<or> b = nextTick (tickers ?m1 ! j) \<and> k \<le> j)
                    \<longrightarrow> (\<forall>p \<in> set new. b < snd p \<or> b = snd p \<and> k \<le> fst p)"
    by blast+
  have "\<forall>j<length (tickers ?m1). \<not> stopped (tickers ?m1 ! j) \<longrightarrow>
           nextTick e < nextTick (tickers ?m1 ! j) \<or> nextTick e = nextTick (tickers ?m1 ! j) \<and> Suc i \<le> j"
    using stepClock_later [OF Fire(1,3)] len by simp
  with bd have gt: "\<forall>p \<in> set new. nextTick e < snd p \<or> nextTick e = snd p \<and> Suc i \<le> fst p"
    by blast
  have s': "sorted_wrt (\<lambda>p q. snd p < snd q \<or> snd p = snd q \<and> fst p < fst q) ((i, nextTick e) # new)"
    using s gt by (auto simp add: Suc_le_eq)
  have bd': "\<forall>p \<in> set ((i, nextTick e) # new). b < snd p \<or> b = snd p \<and> k \<le> fst p"
    if h: "\<forall>j<length (tickers m). \<not> stopped (tickers m ! j) \<longrightarrow>
              b < nextTick (tickers m ! j) \<or> b = nextTick (tickers m ! j) \<and> k \<le> j" for b k
  proof -
    from h e have first: "b < nextTick e \<or> b = nextTick e \<and> k \<le> i" by blast
    have "b < snd p \<or> b = snd p \<and> k \<le> fst p" if "p \<in> set new" for p
    proof -
      from gt that have "nextTick e < snd p \<or> nextTick e = snd p \<and> Suc i \<le> fst p" by blast
      with first show ?thesis by auto
    qed
    with first show ?thesis by simp
  qed
  have l': "length (tickers m') = length (tickers m)" using l len by simp
  from l' s' bd' show ?case by blast
qed



lemma afterFirings_Nil [simp]: "afterFirings t [] = t"
  by (simp add: afterFirings_def)

lemma firings_simps [simp]:
  "firings j [] = []"
  "firings j ((i, x) # new) = (if i = j then x # firings j new else firings j new)"
  by (simp_all add: firings_def)



lemma length_schedule [simp]: "length (schedule t n) = n"
  by (simp add: schedule_def)









text \<open>
  Claim C10. When every registered ticker that is not stopped has a strictly positive
  interval, \<^verbatim>\<open>Advance\<close> returns for every amount \<open>D\<close>: each firing moves the next-fire
  instant of the fired ticker strictly forward, and the number of firings is at most
  the number of instants at or before the target that the tickers can still reach.
\<close>

theorem Advance_terminates:
  "posIntervals m \<longrightarrow>
     (\<exists>m' fired. Advance m d = Some (m', fired)
         \<and> length fired \<le> pendingFirings (time_Add (current m) d) m)
     \<and> (\<forall>t \<in> set (tickers m). \<not> stopped t \<longrightarrow> nextTick t < nextTick (fireTicker t))"
proof
  assume pos: "posIntervals m"
  from advanceLoop_count [OF pos, of "time_Add (current m) d" "[]"]
  have a: "\<exists>m' fired. Advance m d = Some (m', fired)
         \<and> length fired \<le> pendingFirings (time_Add (current m) d) m"
    by (auto simp add: Advance_def)
  have b: "\<forall>t \<in> set (tickers m). \<not> stopped t \<longrightarrow> nextTick t < nextTick (fireTicker t)"
    using pos by (auto simp add: posIntervals_def sint_pos)
  from a b show "(\<exists>m' fired. Advance m d = Some (m', fired)
         \<and> length fired \<le> pendingFirings (time_Add (current m) d) m)
     \<and> (\<forall>t \<in> set (tickers m). \<not> stopped t \<longrightarrow> nextTick t < nextTick (fireTicker t))" ..
qed

lemma posIntervals_clock1: "posIntervals clock1"
  by (simp add: posIntervals_def clock1_def tick1_def sint_pos)

lemma Advance_clock1: "Advance clock1 3 = Some (\<lparr>current = 3, tickers = [tick3]\<rparr>, [(0, 1), (0, 2), (0, 3)])"
  by code_simp

text \<open>One ticker of interval 1, advanced by 3: three firings.\<close>

theorem Advance_terminates_witness:
  "posIntervals clock1
   \<and> Advance clock1 3 = Some (\<lparr>current = 3, tickers = [tick3]\<rparr>, [(0, 1), (0, 2), (0, 3)])
   \<and> pendingFirings (time_Add (current clock1) 3) clock1 = 3
   \<and> nextTick tick1 < nextTick (fireTicker tick1)"
proof -
  have p: "pendingFirings (time_Add (current clock1) 3) clock1 = 3"
    by (simp add: pendingFirings_def due_def clock1_def tick1_def time_Add_def)
  have m: "tick1 \<in> set (tickers clock1)" "\<not> stopped tick1" by (simp_all add: clock1_def tick1_def)
  from Advance_terminates [of clock1 3] posIntervals_clock1 m
  have "nextTick tick1 < nextTick (fireTicker tick1)" by blast
  with posIntervals_clock1 Advance_clock1 p show ?thesis by simp
qed




end
